theory Spec2Isabelle
  imports Complex_Main "HOL-Library.Word"
begin

unbundle bit_operations_syntax

section \<open>Data model of \<open>enhanced-voice-typing.py\<close>\<close>

text \<open>
  An audio chunk is what \<open>stream.read\<close> returns: a \<open>bytes\<close> object, here a list of
  octets. Text is a Python \<open>str\<close>, here the list of its Unicode code points. Audio
  samples after normalisation are \<open>float32\<close> values; every value the program computes
  on them (a 16-bit integer divided by \<open>2 ^ 15\<close>) is exactly representable, so they are
  modelled as rationals.
\<close>

type_synonym chunk = "8 word list"
type_synonym str = "nat list"
type_synonym sample = rat

text \<open>
  Exceptions that can leave a call: \<open>np.frombuffer\<close> on a buffer whose size is not a
  multiple of the element size, the voice-activity classifier, the transcription engine.
\<close>

datatype error = ValueError | VadError | TranscribeError

text \<open>\<open>collections.deque(maxlen=n)\<close>: the items, oldest first, and the fixed bound.\<close>

record 'a deque =
  items :: "'a list"
  maxlen :: nat

text \<open>A transcription segment; only its \<open>text\<close> attribute is read.\<close>

record segment =
  segment_text :: str

text \<open>
  The external collaborators of one run. \<open>transcribe\<close> stands for
  \<open>self.model.transcribe(audio_np, language=..., ...)\<close> with its fixed decoding options
  and yields the segments or raises. \<open>ydotool\<close> and \<open>xdotool\<close> stand for the two
  \<open>subprocess.run([...], check=True)\<close> calls on the typed string: \<open>True\<close> when the
  call returns, \<open>False\<close> when it raises.
\<close>

record env =
  transcribe :: "sample list \<Rightarrow> error + segment list"
  ydotool :: "str \<Rightarrow> bool"
  xdotool :: "str \<Rightarrow> bool"

text \<open>
  What a run does to the outside, in order: the lines it prints, the calls to the
  collaborators with their arguments, and the call of \<open>process_audio\<close> with the buffer
  handed over.
\<close>

datatype event =
    Print_recording
  | Print_processing
  | Call_process_audio "chunk list"
  | Call_transcribe "sample list"
  | Run_ydotool str
  | Run_xdotool str
  | Print_typed str
  | Print_failed str
  | Print_stopped

text \<open>The attributes of \<open>VoiceTyping\<close> that the main loop reads and writes.\<close>

record state =
  pre_buffer :: "chunk deque"
  recording_buffer :: "chunk list"
  is_recording :: bool
  silence_chunks :: nat
  speech_detected :: bool
  running :: bool

text \<open>
  One turn of the main loop sees either \<open>queue.Empty\<close> after the 0.1 s timeout, or a
  chunk together with the verdict of \<open>self.vad.is_speech(chunk, self.RATE)\<close> on it. The
  classifier keeps state of its own between calls, so its verdict is an input of the
  turn and not a function of the chunk.
\<close>

datatype tick = Queue_empty | Got chunk "error + bool"

abbreviation silence :: "chunk \<Rightarrow> tick" where
  "silence c \<equiv> Got c (Inr False)"

abbreviation speech :: "chunk \<Rightarrow> tick" where
  "speech c \<equiv> Got c (Inr True)"

section \<open>Constants of \<open>__init__\<close>\<close>

definition RATE :: nat where
  "RATE = 16000"

definition CHUNK_DURATION_MS :: nat where
  "CHUNK_DURATION_MS = 30"

text \<open>\<open>int(self.RATE * self.CHUNK_DURATION_MS / 1000)\<close>\<close>

definition CHUNK_SIZE :: nat where
  "CHUNK_SIZE = nat \<lfloor>(of_nat (RATE * CHUNK_DURATION_MS) :: rat) / 1000\<rfloor>"

definition PRE_BUFFER_DURATION_SEC :: rat where
  "PRE_BUFFER_DURATION_SEC = 3 / 2"

definition BUFFER_DURATION_SEC :: rat where
  "BUFFER_DURATION_SEC = 4"

text \<open>
  The literal \<open>0.8\<close> is a binary double a little above \<open>4 / 5\<close>, and the silence
  duration compared with it is the double nearest to \<open>n * 30 / 1000\<close>. No multiple of
  \<open>3 / 100\<close> lies within \<open>1 / 100\<close> of \<open>4 / 5\<close>, so the comparison of the doubles and
  the comparison of the rationals agree for every counter value.
\<close>

definition SILENCE_DURATION_SEC :: rat where
  "SILENCE_DURATION_SEC = 8 / 10"

text \<open>\<open>int(self.PRE_BUFFER_DURATION_SEC * self.RATE / self.CHUNK_SIZE)\<close>\<close>

definition pre_buffer_maxlen :: nat where
  "pre_buffer_maxlen = nat \<lfloor>PRE_BUFFER_DURATION_SEC * of_nat RATE / of_nat CHUNK_SIZE\<rfloor>"

definition init_state :: state where
  "init_state =
     \<lparr> pre_buffer = \<lparr> items = [], maxlen = pre_buffer_maxlen \<rparr>,
       recording_buffer = [],
       is_recording = False,
       silence_chunks = 0,
       speech_detected = False,
       running = True \<rparr>"

section \<open>Library operations the program calls\<close>

text \<open>\<open>deque.append\<close>: add on the right, then drop from the left while over the bound.\<close>

definition deque_append :: "'a deque \<Rightarrow> 'a \<Rightarrow> 'a deque" where
  "deque_append d x =
     (let ys = items d @ [x]
      in d\<lparr>items := (if maxlen d < length ys then tl ys else ys)\<rparr>)"

text \<open>
  \<open>np.frombuffer(b, dtype=np.int16)\<close>: raises unless the size is a multiple of two
  bytes, else reads consecutive byte pairs as 16-bit integers, low byte first (the
  native order of the machines the program runs on).
\<close>

fun int16_le :: "8 word list \<Rightarrow> 16 word list" where
  "int16_le (lo # hi # bs) = (push_bit 8 (ucast hi) OR ucast lo) # int16_le bs"
| "int16_le _ = []"

definition frombuffer_int16 :: "8 word list \<Rightarrow> error + 16 word list" where
  "frombuffer_int16 bs =
     (if length bs mod 2 \<noteq> 0 then Inl ValueError else Inr (int16_le bs))"

text \<open>
  \<open>str.isspace\<close> for one code point, \<open>str.strip()\<close> and \<open>sep.join(parts)\<close>.
\<close>

definition isspace :: "nat \<Rightarrow> bool" where
  "isspace c \<longleftrightarrow>
     (9 \<le> c \<and> c \<le> 13) \<or> (28 \<le> c \<and> c \<le> 32) \<or> c = 133 \<or> c = 160 \<or> c = 5760 \<or>
     (8192 \<le> c \<and> c \<le> 8202) \<or> c = 8232 \<or> c = 8233 \<or> c = 8239 \<or> c = 8287 \<or> c = 12288"

definition strip :: "str \<Rightarrow> str" where
  "strip s = rev (dropWhile isspace (rev (dropWhile isspace s)))"

fun join :: "str \<Rightarrow> str list \<Rightarrow> str" where
  "join sep [] = []"
| "join sep [x] = x"
| "join sep (x # y # ys) = x @ sep @ join sep (y # ys)"

section \<open>The methods of \<open>VoiceTyping\<close>\<close>

text \<open>
  \<open>type_text\<close>: try \<open>ydotool\<close> on \<open>text + ' '\<close>; on any exception fall back to
  \<open>xdotool\<close> on the same string; on any exception there, print the failure. Nothing
  leaves the method.
\<close>

definition type_text :: "env \<Rightarrow> str \<Rightarrow> event list" where
  "type_text e txt =
     (if ydotool e (txt @ [32]) then [Run_ydotool (txt @ [32]), Print_typed txt]
      else if xdotool e (txt @ [32])
        then [Run_ydotool (txt @ [32]), Run_xdotool (txt @ [32]), Print_typed txt]
        else [Run_ydotool (txt @ [32]), Run_xdotool (txt @ [32]), Print_failed txt])"

text \<open>
  The first statement of \<open>process_audio\<close>:
  \<open>np.frombuffer(b''.join(audio_data), dtype=np.int16).astype(np.float32) / 32768.0\<close>
\<close>

definition audio_np_of :: "chunk list \<Rightarrow> error + sample list" where
  "audio_np_of audio_data =
     (case frombuffer_int16 (concat audio_data) of
        Inl err \<Rightarrow> Inl err
      | Inr ws \<Rightarrow> Inr (map (\<lambda>w. of_int (sint w) / 32768) ws))"

text \<open>
  \<open>process_audio\<close> returns the exception that leaves it, if any, and the events it
  caused. The call of the engine is not guarded by any \<open>try\<close>.
\<close>

definition process_audio :: "env \<Rightarrow> chunk list \<Rightarrow> error option \<times> event list" where
  "process_audio e audio_data =
     (case audio_np_of audio_data of
        Inl err \<Rightarrow> (Some err, [])
      | Inr audio_np \<Rightarrow>
          if (of_nat (length audio_np) :: rat) < (1 / 2) * of_nat RATE then (None, [])
          else
            (case transcribe e audio_np of
               Inl err \<Rightarrow> (Some err, [Call_transcribe audio_np])
             | Inr segments \<Rightarrow>
                 (let full_text =
                        join [32] (map (\<lambda>g. strip (segment_text g))
                                    (filter (\<lambda>g. strip (segment_text g) \<noteq> []) segments))
                  in if full_text \<noteq> []
                     then (None, Call_transcribe audio_np # type_text e full_text)
                     else (None, [Call_transcribe audio_np]))))"

text \<open>
  The body of \<open>while self.running\<close> in \<open>run\<close>, for one tick. The state returned with an
  exception is the state the object is left in when the exception passes through.
\<close>

fun iteration :: "env \<Rightarrow> state \<Rightarrow> tick \<Rightarrow> error option \<times> state \<times> event list" where
  "iteration e s Queue_empty = (None, s, [])"
| "iteration e s (Got chunk verdict) =
     (let s1 = s\<lparr>pre_buffer := deque_append (pre_buffer s) chunk\<rparr>
      in case verdict of
           Inl err \<Rightarrow> (Some err, s1, [])
         | Inr is_speech \<Rightarrow>
             if is_speech \<and> \<not> is_recording s1 then
               (None,
                s1\<lparr>is_recording := True,
                   recording_buffer := items (pre_buffer s1) @ [chunk],
                   silence_chunks := 0\<rparr>,
                [Print_recording])
             else if is_recording s1 then
               (let s2 = s1\<lparr>recording_buffer := recording_buffer s1 @ [chunk]\<rparr>
                in if \<not> is_speech then
                     (let s3 = s2\<lparr>silence_chunks := silence_chunks s2 + 1\<rparr>;
                          silence_duration =
                            (of_nat (silence_chunks s3 * CHUNK_DURATION_MS) :: rat) / 1000
                      in if silence_duration \<ge> SILENCE_DURATION_SEC then
                           (case process_audio e (recording_buffer s3) of
                              (Some err, tr) \<Rightarrow>
                                (Some err, s3,
                                 Print_processing # Call_process_audio (recording_buffer s3) # tr)
                            | (None, tr) \<Rightarrow>
                                (None,
                                 s3\<lparr>is_recording := False,
                                    recording_buffer := [],
                                    silence_chunks := 0\<rparr>,
                                 Print_processing # Call_process_audio (recording_buffer s3) # tr))
                         else (None, s3, []))
                   else (None, s2\<lparr>silence_chunks := 0\<rparr>, []))
             else (None, s1, []))"

text \<open>
  The loop itself, over the ticks the run sees. An exception ends it at once; the ticks
  that follow are never looked at. The end of the list is the point where the operator
  interrupts.
\<close>

fun run_loop :: "env \<Rightarrow> state \<Rightarrow> tick list \<Rightarrow> error option \<times> state \<times> event list" where
  "run_loop e s [] = (None, s, [])"
| "run_loop e s (t # ts) =
     (if \<not> running s then (None, s, [])
      else case iteration e s t of
             (Some err, s', tr) \<Rightarrow> (Some err, s', tr)
           | (None, s', tr) \<Rightarrow>
               (case run_loop e s' ts of (r, s'', tr') \<Rightarrow> (r, s'', tr @ tr')))"

text \<open>\<open>cleanup\<close> and \<open>run\<close>: the loop, then the \<open>finally\<close> clause; an exception other
  than the interrupt is raised again after it.\<close>

definition cleanup :: "state \<Rightarrow> state \<times> event list" where
  "cleanup s = (s\<lparr>running := False\<rparr>, [Print_stopped])"

definition run :: "env \<Rightarrow> state \<Rightarrow> tick list \<Rightarrow> error option \<times> state \<times> event list" where
  "run e s ticks =
     (case run_loop e s ticks of
        (r, s', tr) \<Rightarrow> (case cleanup s' of (s'', tr') \<Rightarrow> (r, s'', tr @ tr')))"

section \<open>Auxiliary notions for the statements\<close>

text \<open>The chunks a run took from the queue, in arrival order.\<close>

fun got_chunks :: "tick list \<Rightarrow> chunk list" where
  "got_chunks [] = []"
| "got_chunks (Queue_empty # ts) = got_chunks ts"
| "got_chunks (Got c v # ts) = c # got_chunks ts"

text \<open>
  Two sample sets of collaborators: an engine that returns the segments \<open>" hi "\<close>,
  \<open>" \n"\<close> and \<open>"you"\<close> with a failing \<open>ydotool\<close> and a working \<open>xdotool\<close>, and an
  engine that raises on every call.
\<close>

definition typing_env :: env where
  "typing_env =
     \<lparr> transcribe =
         (\<lambda>smp. Inr [\<lparr>segment_text = [32, 104, 105, 32]\<rparr>, \<lparr>segment_text = [32, 10]\<rparr>,
                     \<lparr>segment_text = [121, 111, 117]\<rparr>]),
       ydotool = (\<lambda>txt. False),
       xdotool = (\<lambda>txt. True) \<rparr>"

definition failing_env :: env where
  "failing_env =
     \<lparr> transcribe = (\<lambda>smp. Inl TranscribeError),
       ydotool = (\<lambda>txt. True),
       xdotool = (\<lambda>txt. True) \<rparr>"

text \<open>A device frame: \<open>CHUNK_SIZE\<close> samples of two bytes, all bytes equal to \<open>b\<close>.\<close>

definition frame :: "8 word \<Rightarrow> chunk" where
  "frame b = replicate (2 * CHUNK_SIZE) b"

section \<open>Constants evaluated\<close>

lemma CHUNK_SIZE_480: "CHUNK_SIZE = 480"
  by (simp add: CHUNK_SIZE_def RATE_def CHUNK_DURATION_MS_def)

lemma pre_buffer_maxlen_50: "pre_buffer_maxlen = 50"
  by (simp add: pre_buffer_maxlen_def CHUNK_SIZE_480 PRE_BUFFER_DURATION_SEC_def RATE_def)

section \<open>The threshold and the pre-buffer\<close>

lemma silence_threshold:
  "((of_nat (n * CHUNK_DURATION_MS) :: rat) / 1000 \<ge> SILENCE_DURATION_SEC) \<longleftrightarrow> 27 \<le> n"
proof -
  have "((of_nat (n * 30) :: rat) / 1000 \<ge> 8 / 10) \<longleftrightarrow> (of_nat 800 :: rat) \<le> of_nat (n * 30)"
    by (simp add: field_simps)
  also have "\<dots> \<longleftrightarrow> 800 \<le> n * 30"
    by (simp only: of_nat_le_iff)
  also have "\<dots> \<longleftrightarrow> 27 \<le> n"
    by arith
  finally show ?thesis
    by (simp add: CHUNK_DURATION_MS_def SILENCE_DURATION_SEC_def)
qed

lemma maxlen_deque_append [simp]: "maxlen (deque_append d x) = maxlen d"
  by (simp add: deque_append_def Let_def)

lemma items_deque_append:
  "items (deque_append d x) =
     (if maxlen d < Suc (length (items d)) then tl (items d @ [x]) else items d @ [x])"
  by (simp add: deque_append_def Let_def)

lemma maxlen_foldl [simp]: "maxlen (foldl deque_append d cs) = maxlen d"
  by (induction cs arbitrary: d) simp_all

lemma items_foldl:
  "length (items d) \<le> maxlen d \<Longrightarrow>
   items (foldl deque_append d cs) = drop (length (items d) + length cs - maxlen d) (items d @ cs)"
proof (induction cs arbitrary: d)
  case Nil
  then show ?case by simp
next
  case (Cons c cs)
  have len: "length (items (deque_append d c)) \<le> maxlen (deque_append d c)"
    using Cons.prems by (auto simp: items_deque_append)
  show ?case
  proof (cases "maxlen d < Suc (length (items d))")
    case True
    with Cons.prems have eq: "length (items d) = maxlen d" by simp
    show ?thesis
    proof (cases "items d")
      case Nil
      with eq True show ?thesis
        using Cons.IH [OF len] by (simp add: items_deque_append)
    next
      case (Cons y ys)
      with eq True show ?thesis
        using Cons.IH [OF len] by (simp add: items_deque_append)
    qed
  next
    case False
    then show ?thesis
      using Cons.IH [OF len] by (simp add: items_deque_append Suc_diff_le)
  qed
qed


lemma iteration_idle_silence:
  "\<not> is_recording s \<Longrightarrow>
   iteration e s (silence c) = (None, s\<lparr>pre_buffer := deque_append (pre_buffer s) c\<rparr>, [])"
  by (simp add: Let_def)

lemma iteration_onset:
  "\<not> is_recording s \<Longrightarrow>
   iteration e s (speech c) =
     (None,
      s\<lparr>pre_buffer := deque_append (pre_buffer s) c,
        is_recording := True,
        recording_buffer := items (deque_append (pre_buffer s) c) @ [c],
        silence_chunks := 0\<rparr>,
      [Print_recording])"
  by (simp add: Let_def)

lemma iteration_recording_speech:
  "is_recording s \<Longrightarrow>
   iteration e s (speech c) =
     (None,
      s\<lparr>pre_buffer := deque_append (pre_buffer s) c,
        recording_buffer := recording_buffer s @ [c],
        silence_chunks := 0\<rparr>,
      [])"
  by (simp add: Let_def)

lemma iteration_recording_silence:
  "is_recording s \<Longrightarrow> Suc (silence_chunks s) < 27 \<Longrightarrow>
   iteration e s (silence c) =
     (None,
      s\<lparr>pre_buffer := deque_append (pre_buffer s) c,
        recording_buffer := recording_buffer s @ [c],
        silence_chunks := Suc (silence_chunks s)\<rparr>,
      [])"
  by (simp only: iteration.simps Let_def silence_threshold) simp

lemma iteration_finalize:
  "is_recording s \<Longrightarrow> 27 \<le> Suc (silence_chunks s) \<Longrightarrow>
   iteration e s (silence c) =
     (case process_audio e (recording_buffer s @ [c]) of
        (Some err, tr) \<Rightarrow>
          (Some err,
           s\<lparr>pre_buffer := deque_append (pre_buffer s) c,
             recording_buffer := recording_buffer s @ [c],
             silence_chunks := Suc (silence_chunks s)\<rparr>,
           Print_processing # Call_process_audio (recording_buffer s @ [c]) # tr)
      | (None, tr) \<Rightarrow>
          (None,
           s\<lparr>pre_buffer := deque_append (pre_buffer s) c,
             recording_buffer := [],
             is_recording := False,
             silence_chunks := 0\<rparr>,
           Print_processing # Call_process_audio (recording_buffer s @ [c]) # tr))"
  by (simp only: iteration.simps Let_def silence_threshold)
    (simp split: prod.splits option.splits)

lemma run_loop_append:
  "run_loop e s (xs @ ys) =
     (case run_loop e s xs of
        (Some err, s', tr) \<Rightarrow> (Some err, s', tr)
      | (None, s', tr) \<Rightarrow>
          (case run_loop e s' ys of (r, s'', tr') \<Rightarrow> (r, s'', tr @ tr')))"
proof (induction xs arbitrary: s)
  case Nil
  then show ?case by (simp split: prod.splits)
next
  case (Cons x xs)
  show ?case
  proof (cases "running s")
    case False
    then show ?thesis
      by (cases ys) (simp_all split: prod.splits)
  next
    case True
    then show ?thesis
      by (simp add: Cons.IH split: prod.splits option.splits)
  qed
qed

section \<open>Runs of like ticks\<close>

declare iteration.simps [simp del]

lemma iteration_Queue_empty [simp]: "iteration e s Queue_empty = (None, s, [])"
  by (simp add: iteration.simps)

lemma run_idle_silence:
  "running s \<Longrightarrow> \<not> is_recording s \<Longrightarrow>
   run_loop e s (map silence cs) =
     (None, s\<lparr>pre_buffer := foldl deque_append (pre_buffer s) cs\<rparr>, [])"
proof (induction cs arbitrary: s)
  case Nil
  then show ?case by simp
next
  case (Cons c cs)
  let ?s1 = "s\<lparr>pre_buffer := deque_append (pre_buffer s) c\<rparr>"
  have "run_loop e ?s1 (map silence cs) =
          (None, ?s1\<lparr>pre_buffer := foldl deque_append (pre_buffer ?s1) cs\<rparr>, [])"
    using Cons.prems by (intro Cons.IH) simp_all
  with Cons.prems show ?case
    by (simp add: iteration_idle_silence)
qed

lemma run_recording_speech:
  "running s \<Longrightarrow> is_recording s \<Longrightarrow>
   run_loop e s (map speech cs) =
     (None,
      s\<lparr>pre_buffer := foldl deque_append (pre_buffer s) cs,
        recording_buffer := recording_buffer s @ cs,
        silence_chunks := (if cs = [] then silence_chunks s else 0)\<rparr>,
      [])"
proof (induction cs arbitrary: s)
  case Nil
  then show ?case by simp
next
  case (Cons c cs)
  let ?s1 = "s\<lparr>pre_buffer := deque_append (pre_buffer s) c,
               recording_buffer := recording_buffer s @ [c],
               silence_chunks := 0\<rparr>"
  have "run_loop e ?s1 (map speech cs) =
          (None,
           ?s1\<lparr>pre_buffer := foldl deque_append (pre_buffer ?s1) cs,
              recording_buffer := recording_buffer ?s1 @ cs,
              silence_chunks := (if cs = [] then silence_chunks ?s1 else 0)\<rparr>,
           [])"
    using Cons.prems by (intro Cons.IH) simp_all
  with Cons.prems show ?case
    by (simp add: iteration_recording_speech)
qed

lemma run_recording_silence:
  "running s \<Longrightarrow> is_recording s \<Longrightarrow> silence_chunks s + length cs < 27 \<Longrightarrow>
   run_loop e s (map silence cs) =
     (None,
      s\<lparr>pre_buffer := foldl deque_append (pre_buffer s) cs,
        recording_buffer := recording_buffer s @ cs,
        silence_chunks := silence_chunks s + length cs\<rparr>,
      [])"
proof (induction cs arbitrary: s)
  case Nil
  then show ?case by simp
next
  case (Cons c cs)
  let ?s1 = "s\<lparr>pre_buffer := deque_append (pre_buffer s) c,
               recording_buffer := recording_buffer s @ [c],
               silence_chunks := Suc (silence_chunks s)\<rparr>"
  have "run_loop e ?s1 (map silence cs) =
          (None,
           ?s1\<lparr>pre_buffer := foldl deque_append (pre_buffer ?s1) cs,
              recording_buffer := recording_buffer ?s1 @ cs,
              silence_chunks := silence_chunks ?s1 + length cs\<rparr>,
           [])"
    using Cons.prems by (intro Cons.IH) simp_all
  with Cons.prems show ?case
    by (simp add: iteration_recording_silence)
qed

lemma run_loop_append_None:
  "run_loop e s xs = (None, s', tr) \<Longrightarrow> run_loop e s' ys = (r, s'', tr') \<Longrightarrow>
   run_loop e s (xs @ ys) = (r, s'', tr @ tr')"
  by (simp add: run_loop_append)

lemma run_loop_Cons_None:
  "running s \<Longrightarrow> iteration e s t = (None, s', tr) \<Longrightarrow> run_loop e s' ts = (r, s'', tr') \<Longrightarrow>
   run_loop e s (t # ts) = (r, s'', tr @ tr')"
  by simp

lemma run_utterance_open:
  assumes "running s" "\<not> is_recording s" "length s2 < 27"
  shows "run_loop e s (map silence s1 @ speech c # map speech sp @ map silence s2) =
     (None,
      s\<lparr>pre_buffer := foldl deque_append (pre_buffer s) (s1 @ c # sp @ s2),
        recording_buffer := items (foldl deque_append (pre_buffer s) (s1 @ [c])) @ c # sp @ s2,
        is_recording := True,
        silence_chunks := length s2\<rparr>,
      [Print_recording])"
proof -
  let ?sa = "s\<lparr>pre_buffer := foldl deque_append (pre_buffer s) s1\<rparr>"
  let ?sb = "?sa\<lparr>pre_buffer := deque_append (pre_buffer ?sa) c,
                 is_recording := True,
                 recording_buffer := items (deque_append (pre_buffer ?sa) c) @ [c],
                 silence_chunks := 0\<rparr>"
  let ?sc = "?sb\<lparr>pre_buffer := foldl deque_append (pre_buffer ?sb) sp,
                 recording_buffer := recording_buffer ?sb @ sp,
                 silence_chunks := (if sp = [] then silence_chunks ?sb else 0)\<rparr>"
  let ?sd = "?sc\<lparr>pre_buffer := foldl deque_append (pre_buffer ?sc) s2,
                 recording_buffer := recording_buffer ?sc @ s2,
                 silence_chunks := silence_chunks ?sc + length s2\<rparr>"
  have a: "run_loop e s (map silence s1) = (None, ?sa, [])"
    using assms by (simp add: run_idle_silence)
  have b: "iteration e ?sa (speech c) = (None, ?sb, [Print_recording])"
    using assms by (simp add: iteration_onset)
  have c: "run_loop e ?sb (map speech sp) = (None, ?sc, [])"
    using assms by (intro run_recording_speech) simp_all
  have d: "run_loop e ?sc (map silence s2) = (None, ?sd, [])"
    using assms by (intro run_recording_silence) simp_all
  have "run_loop e ?sb (map speech sp @ map silence s2) = (None, ?sd, [] @ [])"
    by (rule run_loop_append_None [OF c d])
  moreover have "running ?sa"
    using assms by simp
  ultimately have "run_loop e ?sa (speech c # map speech sp @ map silence s2) =
      (None, ?sd, [Print_recording] @ [] @ [])"
    using b by (rule run_loop_Cons_None [rotated 2])
  with a have "run_loop e s (map silence s1 @ speech c # map speech sp @ map silence s2) =
      (None, ?sd, [] @ [Print_recording] @ [] @ [])"
    by (rule run_loop_append_None)
  moreover have "?sd = s\<lparr>pre_buffer := foldl deque_append (pre_buffer s) (s1 @ c # sp @ s2),
        recording_buffer := items (foldl deque_append (pre_buffer s) (s1 @ [c])) @ c # sp @ s2,
        is_recording := True,
        silence_chunks := length s2\<rparr>"
    by simp
  ultimately show ?thesis by simp
qed

lemma run_loop_single: "running s \<Longrightarrow> run_loop e s [t] = iteration e s t"
  by (simp split: prod.splits option.splits)

lemma run_utterance_close:
  assumes "running s" "\<not> is_recording s" "length s2 = 26"
  shows "run_loop e s (map silence s1 @ speech c # map speech sp @ map silence s2 @ [silence c']) =
     (let buf = items (foldl deque_append (pre_buffer s) (s1 @ [c])) @ c # sp @ s2 @ [c'];
          pb = foldl deque_append (pre_buffer s) (s1 @ c # sp @ s2 @ [c'])
      in case process_audio e buf of
           (Some err, tr) \<Rightarrow>
             (Some err,
              s\<lparr>pre_buffer := pb, recording_buffer := buf,
                is_recording := True, silence_chunks := 27\<rparr>,
              Print_recording # Print_processing # Call_process_audio buf # tr)
         | (None, tr) \<Rightarrow>
             (None,
              s\<lparr>pre_buffer := pb, recording_buffer := [],
                is_recording := False, silence_chunks := 0\<rparr>,
              Print_recording # Print_processing # Call_process_audio buf # tr))"
proof -
  let ?so = "s\<lparr>pre_buffer := foldl deque_append (pre_buffer s) (s1 @ c # sp @ s2),
        recording_buffer := items (foldl deque_append (pre_buffer s) (s1 @ [c])) @ c # sp @ s2,
        is_recording := True,
        silence_chunks := length s2\<rparr>"
  have opn: "run_loop e s (map silence s1 @ speech c # map speech sp @ map silence s2) =
      (None, ?so, [Print_recording])"
    using assms by (intro run_utterance_open) simp_all
  have split: "map silence s1 @ speech c # map speech sp @ map silence s2 @ [silence c'] =
      (map silence s1 @ speech c # map speech sp @ map silence s2) @ [silence c']"
    by simp
  have fin: "iteration e ?so (silence c') =
     (case process_audio e (recording_buffer ?so @ [c']) of
        (Some err, tr) \<Rightarrow>
          (Some err,
           ?so\<lparr>pre_buffer := deque_append (pre_buffer ?so) c',
             recording_buffer := recording_buffer ?so @ [c'],
             silence_chunks := Suc (silence_chunks ?so)\<rparr>,
           Print_processing # Call_process_audio (recording_buffer ?so @ [c']) # tr)
      | (None, tr) \<Rightarrow>
          (None,
           ?so\<lparr>pre_buffer := deque_append (pre_buffer ?so) c',
             recording_buffer := [],
             is_recording := False,
             silence_chunks := 0\<rparr>,
           Print_processing # Call_process_audio (recording_buffer ?so @ [c']) # tr))"
    using assms by (intro iteration_finalize) simp_all
  have run: "running ?so"
    using assms by simp
  obtain r s' tr' where it: "iteration e ?so (silence c') = (r, s', tr')"
    by (cases "iteration e ?so (silence c')") auto
  have "run_loop e ?so [silence c'] = (r, s', tr')"
    using run it by (simp only: run_loop_single)
  with opn have "run_loop e s ((map silence s1 @ speech c # map speech sp @ map silence s2) @ [silence c']) =
      (r, s', [Print_recording] @ tr')"
    by (rule run_loop_append_None)
  moreover have "(r, s', [Print_recording] @ tr') =
     (let buf = items (foldl deque_append (pre_buffer s) (s1 @ [c])) @ c # sp @ s2 @ [c'];
          pb = foldl deque_append (pre_buffer s) (s1 @ c # sp @ s2 @ [c'])
      in case process_audio e buf of
           (Some err, tr) \<Rightarrow>
             (Some err,
              s\<lparr>pre_buffer := pb, recording_buffer := buf,
                is_recording := True, silence_chunks := 27\<rparr>,
              Print_recording # Print_processing # Call_process_audio buf # tr)
         | (None, tr) \<Rightarrow>
             (None,
              s\<lparr>pre_buffer := pb, recording_buffer := [],
                is_recording := False, silence_chunks := 0\<rparr>,
              Print_recording # Print_processing # Call_process_audio buf # tr))"
    using fin assms(3) unfolding it
    by (simp add: Let_def split: prod.splits option.splits)
  ultimately show ?thesis
    unfolding split by simp
qed

section \<open>Assembling the samples\<close>

lemma length_int16_le: "length (int16_le bs) = length bs div 2"
  by (induction bs rule: int16_le.induct) simp_all

lemma length_concat_uniform:
  "\<forall>c\<in>set cs. length c = k \<Longrightarrow> length (concat cs) = k * length cs"
  by (induction cs) simp_all

lemma audio_np_of_uniform:
  assumes "\<forall>c\<in>set buf. length c = 2 * k"
  shows "\<exists>smp. audio_np_of buf = Inr smp \<and> length smp = k * length buf"
proof -
  have "length (concat buf) = 2 * k * length buf"
    using assms by (rule length_concat_uniform)
  then show ?thesis
    by (simp add: audio_np_of_def frombuffer_int16_def length_int16_le)
qed

lemma process_audio_long:
  assumes "audio_np_of buf = Inr smp" "8000 \<le> length smp"
  shows "process_audio e buf =
     (case transcribe e smp of
        Inl err \<Rightarrow> (Some err, [Call_transcribe smp])
      | Inr segments \<Rightarrow>
          (let full_text = join [32] (map (\<lambda>g. strip (segment_text g))
                                    (filter (\<lambda>g. strip (segment_text g) \<noteq> []) segments))
           in if full_text \<noteq> [] then (None, Call_transcribe smp # type_text e full_text)
              else (None, [Call_transcribe smp])))"
proof -
  have "\<not> (of_nat (length smp) :: rat) < (1 / 2) * of_nat RATE"
  proof -
    have "(of_nat 8000 :: rat) \<le> of_nat (length smp)"
      using assms(2) by (simp only: of_nat_le_iff)
    then show ?thesis by (simp add: RATE_def)
  qed
  then show ?thesis
    using assms(1) by (simp add: process_audio_def)
qed

lemma hd_process_audio_long:
  assumes "audio_np_of buf = Inr smp" "8000 \<le> length smp"
  shows "hd (snd (process_audio e buf)) = Call_transcribe smp"
  by (simp add: process_audio_long [OF assms] Let_def split: sum.splits)

section \<open>What each turn does to the pre-buffer\<close>

lemma iteration_pre_buffer:
  "iteration e s t = (r, s', tr) \<Longrightarrow>
   pre_buffer s' = (case t of Queue_empty \<Rightarrow> pre_buffer s | Got c v \<Rightarrow> deque_append (pre_buffer s) c)
   \<and> running s' = running s"
  by (cases t)
    (auto simp: iteration.simps Let_def split: sum.splits if_splits prod.splits option.splits)

lemma got_chunks_silence [simp]: "got_chunks (map silence cs) = cs"
  by (induction cs) simp_all

section \<open>Samples, chunk by chunk\<close>

lemma int16_le_append:
  "even (length xs) \<Longrightarrow> int16_le (xs @ ys) = int16_le xs @ int16_le ys"
  by (induction xs rule: int16_le.induct) simp_all

lemma even_length_concat:
  "\<forall>c\<in>set cs. even (length c) \<Longrightarrow> even (length (concat cs))"
  by (induction cs) simp_all

lemma int16_le_concat:
  "\<forall>c\<in>set cs. even (length c) \<Longrightarrow> int16_le (concat cs) = concat (map int16_le cs)"
  by (induction cs) (simp_all add: int16_le_append)

lemma sample_bounds:
  "- 1 \<le> (of_int (sint (w :: 16 word)) :: rat) / 32768 \<and> (of_int (sint w) :: rat) / 32768 < 1"
proof -
  have lo: "- 32768 \<le> sint w"
    using sint_ge [of w] by simp
  have hi: "sint w < 32768"
    using sint_lt [of w] by simp
  have "(of_int (- 32768) :: rat) \<le> of_int (sint w)"
    using lo by (simp only: of_int_le_iff)
  moreover have "(of_int (sint w) :: rat) < of_int 32768"
    using hi by (simp only: of_int_less_iff)
  ultimately show ?thesis
    by (simp add: field_simps)
qed

lemma audio_np_of_bounds:
  "audio_np_of audio_data = Inr smp \<Longrightarrow> x \<in> set smp \<Longrightarrow> - 1 \<le> x \<and> x \<le> 1"
proof -
  assume a: "audio_np_of audio_data = Inr smp" and x: "x \<in> set smp"
  from a obtain ws :: "16 word list" where "smp = map (\<lambda>w. of_int (sint w) / 32768) ws"
    by (auto simp: audio_np_of_def split: sum.splits)
  with x obtain w :: "16 word" where "x = of_int (sint w) / 32768"
    by auto
  with sample_bounds [of w] show ?thesis
    by simp
qed

lemma short_iff:
  "((of_nat n :: rat) < (1 / 2) * of_nat RATE) \<longleftrightarrow> ((of_nat n :: rat) / of_nat RATE < 1 / 2)"
  by (simp add: RATE_def field_simps)

lemma concat_replicate_replicate:
  "concat (replicate n (replicate m b)) = replicate (n * m) b"
  by (induction n) (simp_all add: replicate_add)

lemma int16_le_replicate:
  "int16_le (replicate (2 * n) b) = replicate n (push_bit 8 (ucast b) OR ucast b)"
  by (induction n) simp_all

lemma audio_np_of_frames:
  "audio_np_of (replicate n (frame b)) =
     Inr (replicate (n * CHUNK_SIZE)
            (of_int (sint (push_bit 8 (ucast b) OR ucast b :: 16 word)) / 32768))"
proof -
  have "concat (replicate n (frame b)) = replicate (2 * (n * CHUNK_SIZE)) b"
    by (simp add: frame_def concat_replicate_replicate mult.assoc mult.left_commute)
  then show ?thesis
    by (simp add: audio_np_of_def frombuffer_int16_def int16_le_replicate
        del: replicate_eq_replicate)
qed

section \<open>Joining and typing\<close>

lemma join_eq_Nil_iff:
  "\<forall>x\<in>set xs. x \<noteq> [] \<Longrightarrow> join sep xs = [] \<longleftrightarrow> xs = []"
  by (induction sep xs rule: join.induct) simp_all

lemma kept_segments:
  "map (\<lambda>g. strip (segment_text g)) (filter (\<lambda>g. strip (segment_text g) \<noteq> []) segments) =
   filter (\<lambda>t. t \<noteq> []) (map (\<lambda>g. strip (segment_text g)) segments)"
  by (induction segments) simp_all

lemma type_text_ydotool:
  "Run_ydotool arg \<in> set (type_text e txt) \<longleftrightarrow> arg = txt @ [32]"
  by (auto simp: type_text_def)

lemma type_text_xdotool:
  "Run_xdotool arg \<in> set (type_text e txt) \<Longrightarrow> arg = txt @ [32]"
  by (auto simp: type_text_def split: if_splits)

section \<open>The turns of the loop by cases, and what they preserve\<close>

lemma iteration_vad_error:
  "iteration e s (Got c (Inl err)) =
     (Some err, s\<lparr>pre_buffer := deque_append (pre_buffer s) c\<rparr>, [])"
  by (simp add: iteration.simps Let_def)

lemma iteration_cases [case_names empty vad_error idle onset speech pause finalize]:
  assumes "t = Queue_empty \<Longrightarrow> P"
      and "\<And>c err. t = Got c (Inl err) \<Longrightarrow> P"
      and "\<And>c. t = silence c \<Longrightarrow> \<not> is_recording s \<Longrightarrow> P"
      and "\<And>c. t = speech c \<Longrightarrow> \<not> is_recording s \<Longrightarrow> P"
      and "\<And>c. t = speech c \<Longrightarrow> is_recording s \<Longrightarrow> P"
      and "\<And>c. t = silence c \<Longrightarrow> is_recording s \<Longrightarrow> Suc (silence_chunks s) < 27 \<Longrightarrow> P"
      and "\<And>c. t = silence c \<Longrightarrow> is_recording s \<Longrightarrow> 27 \<le> Suc (silence_chunks s) \<Longrightarrow> P"
  shows P
proof (cases t)
  case Queue_empty
  then show ?thesis by (rule assms(1))
next
  case (Got c v)
  show ?thesis
  proof (cases v)
    case (Inl err)
    with Got show ?thesis by (intro assms(2)) simp
  next
    case (Inr b)
    with Got have t: "t = Got c (Inr b)" by simp
    show ?thesis
    proof (cases b)
      case True
      with t assms(4, 5) show ?thesis by (cases "is_recording s") simp_all
    next
      case False
      show ?thesis
      proof (cases "is_recording s")
        case True
        with t False assms(6, 7) show ?thesis
          by (cases "Suc (silence_chunks s) < 27") simp_all
      next
        case rec: False
        with t False assms(3) show ?thesis by simp
      qed
    qed
  qed
qed

lemma items_deque_append_nonempty:
  "0 < maxlen d \<Longrightarrow> items (deque_append d x) \<noteq> []"
  by (cases "items d") (simp_all add: items_deque_append)

lemma set_items_deque_append:
  "set (items (deque_append d x)) \<subseteq> insert x (set (items d))"
  by (cases "items d") (auto simp: items_deque_append)

lemma iteration_keeps_invariant:
  assumes it: "iteration e s t = (None, s', tr)"
      and inv: "if is_recording s
                then silence_chunks s \<le> 26 \<and> 2 + silence_chunks s \<le> length (recording_buffer s)
                else recording_buffer s = [] \<and> silence_chunks s = 0"
      and cap: "0 < maxlen (pre_buffer s)"
  shows "if is_recording s'
         then silence_chunks s' \<le> 26 \<and> 2 + silence_chunks s' \<le> length (recording_buffer s')
         else recording_buffer s' = [] \<and> silence_chunks s' = 0"
proof (cases rule: iteration_cases [where t = t and s = s])
  case empty
  with it inv show ?thesis by auto
next
  case (vad_error c err)
  with it show ?thesis by (simp add: iteration_vad_error)
next
  case (idle c)
  with it inv show ?thesis by (auto simp: iteration_idle_silence)
next
  case (onset c)
  have "items (deque_append (pre_buffer s) c) \<noteq> []"
    using cap by (rule items_deque_append_nonempty)
  then have "1 \<le> length (items (deque_append (pre_buffer s) c))"
    by (cases "items (deque_append (pre_buffer s) c)") simp_all
  with onset it show ?thesis by (auto simp: iteration_onset)
next
  case (speech c)
  with it inv show ?thesis by (auto simp: iteration_recording_speech)
next
  case (pause c)
  with it inv show ?thesis by (auto simp: iteration_recording_silence)
next
  case (finalize c)
  with it show ?thesis
    by (auto simp: iteration_finalize split: prod.splits option.splits)
qed

lemma run_loop_keeps_invariant:
  assumes "run_loop e s ts = (None, s', tr)"
      and "if is_recording s
           then silence_chunks s \<le> 26 \<and> 2 + silence_chunks s \<le> length (recording_buffer s)
           else recording_buffer s = [] \<and> silence_chunks s = 0"
      and "0 < maxlen (pre_buffer s)"
  shows "if is_recording s'
         then silence_chunks s' \<le> 26 \<and> 2 + silence_chunks s' \<le> length (recording_buffer s')
         else recording_buffer s' = [] \<and> silence_chunks s' = 0"
  using assms
proof (induction ts arbitrary: s tr)
  case Nil
  then show ?case by (auto split: if_splits)
next
  case (Cons t ts)
  show ?case
  proof (cases "running s")
    case False
    with Cons.prems show ?thesis by (auto split: if_splits)
  next
    case True
    obtain r1 s1 tr1 where it: "iteration e s t = (r1, s1, tr1)"
      by (cases "iteration e s t") auto
    obtain r2 s2 tr2 where rl: "run_loop e s1 ts = (r2, s2, tr2)"
      by (cases "run_loop e s1 ts") auto
    from Cons.prems(1) True it rl have r1: "r1 = None" and r2: "r2 = None" and s2: "s2 = s'"
      by (auto split: option.splits)
    from iteration_pre_buffer [OF it] Cons.prems(3) have cap1: "0 < maxlen (pre_buffer s1)"
      by (cases t) simp_all
    from iteration_keeps_invariant [OF it [unfolded r1] Cons.prems(2, 3)] rl r2 s2 cap1
    show ?thesis
      by (intro Cons.IH [of s1 tr2]) simp_all
  qed
qed

lemma ceiling_threshold:
  "\<lceil>SILENCE_DURATION_SEC / (of_nat CHUNK_DURATION_MS / 1000)\<rceil> = 27"
  by (simp add: SILENCE_DURATION_SEC_def CHUNK_DURATION_MS_def ceiling_eq_iff)

lemma iteration_speech_result:
  "\<exists>s'. iteration e s (speech c) =
          (None, s', if is_recording s then [] else [Print_recording]) \<and>
        is_recording s' \<and> silence_chunks s' = 0 \<and> running s' = running s"
  by (cases "is_recording s") (simp_all add: iteration_recording_speech iteration_onset)

section \<open>Buffers handed to \<open>process_audio\<close>\<close>

lemma process_audio_no_handoff:
  "Call_process_audio b \<notin> set (snd (process_audio e buf))"
  by (auto simp: process_audio_def type_text_def Let_def split: sum.splits if_splits)

lemma iteration_handoff:
  assumes "iteration e s t = (r, s', tr)" and "Call_process_audio buf \<in> set tr"
  shows "is_recording s \<and> 27 \<le> Suc (silence_chunks s) \<and>
         (\<exists>c. t = silence c \<and> buf = recording_buffer s @ [c])"
proof (cases rule: iteration_cases [where t = t and s = s])
  case empty
  with assms show ?thesis by simp
next
  case (vad_error c err)
  with assms show ?thesis by (simp add: iteration_vad_error)
next
  case (idle c)
  with assms show ?thesis by (simp add: iteration_idle_silence)
next
  case (onset c)
  with assms show ?thesis by (auto simp: iteration_onset)
next
  case (speech c)
  with assms show ?thesis by (simp add: iteration_recording_speech)
next
  case (pause c)
  with assms show ?thesis by (simp add: iteration_recording_silence)
next
  case (finalize c)
  obtain r0 tr0 where pa: "process_audio e (recording_buffer s @ [c]) = (r0, tr0)"
    by (cases "process_audio e (recording_buffer s @ [c])") auto
  from process_audio_no_handoff [of buf e "recording_buffer s @ [c]"] pa
  have "Call_process_audio buf \<notin> set tr0"
    by simp
  with finalize assms pa show ?thesis
    by (auto simp: iteration_finalize split: option.splits)
qed

lemma iteration_keeps_chunks:
  assumes it: "iteration e s t = (r, s', tr)"
      and st: "\<forall>c\<in>set (items (pre_buffer s)) \<union> set (recording_buffer s). P c"
      and tk: "\<forall>c\<in>set (got_chunks [t]). P c"
  shows "\<forall>c\<in>set (items (pre_buffer s')) \<union> set (recording_buffer s'). P c"
proof -
  have pb: "\<forall>x\<in>set (items (deque_append (pre_buffer s) c)). P x" if "P c" for c
    using set_items_deque_append [of "pre_buffer s" c] st that by auto
  show ?thesis
  proof (cases rule: iteration_cases [where t = t and s = s])
    case empty
    with it st show ?thesis by auto
  next
    case (vad_error c err)
    with it st tk pb [of c] show ?thesis by (auto simp: iteration_vad_error)
  next
    case (idle c)
    with it st tk pb [of c] show ?thesis by (auto simp: iteration_idle_silence)
  next
    case (onset c)
    with it st tk pb [of c] show ?thesis by (auto simp: iteration_onset)
  next
    case (speech c)
    with it st tk pb [of c] show ?thesis by (auto simp: iteration_recording_speech)
  next
    case (pause c)
    with it st tk pb [of c] show ?thesis by (auto simp: iteration_recording_silence)
  next
    case (finalize c)
    with it st tk pb [of c] show ?thesis
      by (auto simp: iteration_finalize split: prod.splits option.splits)
  qed
qed

lemma run_loop_handoff:
  assumes "run_loop e s ts = (r, s', tr)"
      and "Call_process_audio buf \<in> set tr"
      and "if is_recording s
           then silence_chunks s \<le> 26 \<and> 2 + silence_chunks s \<le> length (recording_buffer s)
           else recording_buffer s = [] \<and> silence_chunks s = 0"
      and "0 < maxlen (pre_buffer s)"
      and "\<forall>c\<in>set (items (pre_buffer s)) \<union> set (recording_buffer s). P c"
      and "\<forall>c\<in>set (got_chunks ts). P c"
  shows "29 \<le> length buf \<and> (\<forall>c\<in>set buf. P c)"
  using assms
proof (induction ts arbitrary: s tr r s')
  case Nil
  then show ?case by simp
next
  case (Cons t ts)
  show ?case
  proof (cases "running s")
    case False
    with Cons.prems show ?thesis by simp
  next
    case True
    obtain r1 s1 tr1 where it: "iteration e s t = (r1, s1, tr1)"
      by (cases "iteration e s t") auto
    have tk: "\<forall>c\<in>set (got_chunks [t]). P c" and tks: "\<forall>c\<in>set (got_chunks ts). P c"
      using Cons.prems(6) by (cases t; simp)+
    have here: "29 \<le> length buf \<and> (\<forall>c\<in>set buf. P c)" if "Call_process_audio buf \<in> set tr1"
    proof -
      from iteration_handoff [OF it that] obtain c where
        rec: "is_recording s" and cnt: "27 \<le> Suc (silence_chunks s)"
        and t: "t = silence c" and buf: "buf = recording_buffer s @ [c]"
        by blast
      from rec Cons.prems(3) have "2 + silence_chunks s \<le> length (recording_buffer s)"
        by simp
      with cnt buf have "29 \<le> length buf"
        by simp
      moreover from t tk Cons.prems(5) buf have "\<forall>c\<in>set buf. P c"
        by auto
      ultimately show ?thesis ..
    qed
    show ?thesis
    proof (cases r1)
      case (Some err)
      with Cons.prems(1) True it have "tr = tr1" by simp
      with Cons.prems(2) here show ?thesis by simp
    next
      case None
      obtain r2 s2 tr2 where rl: "run_loop e s1 ts = (r2, s2, tr2)"
        by (cases "run_loop e s1 ts") auto
      from Cons.prems(1) True it None rl have tr: "tr = tr1 @ tr2" by simp
      from iteration_pre_buffer [OF it] Cons.prems(4) have cap1: "0 < maxlen (pre_buffer s1)"
        by (cases t) simp_all
      note inv1 = iteration_keeps_invariant [OF it [unfolded None] Cons.prems(3, 4)]
      note ch1 = iteration_keeps_chunks [where P = P, OF it Cons.prems(5) tk]
      from Cons.prems(2) tr consider "Call_process_audio buf \<in> set tr1"
        | "Call_process_audio buf \<in> set tr2"
        by auto
      then show ?thesis
      proof cases
        case 1
        then show ?thesis by (rule here)
      next
        case 2
        from rl 2 inv1 cap1 ch1 tks show ?thesis
          by (rule Cons.IH)
      qed
    qed
  qed
qed

section \<open>The first utterance of a run\<close>

lemma onset_buffer:
  "run_loop e init_state (map silence cs @ [speech c]) =
     (None,
      init_state\<lparr>pre_buffer := foldl deque_append (pre_buffer init_state) (cs @ [c]),
        recording_buffer := drop (Suc (length cs) - 50) (cs @ [c]) @ [c],
        is_recording := True,
        silence_chunks := 0\<rparr>,
      [Print_recording])"
proof -
  have start: "running init_state" "\<not> is_recording init_state" "length ([] :: chunk list) < 27"
    by (simp_all add: init_state_def)
  have "items (foldl deque_append (pre_buffer init_state) (cs @ [c])) =
      drop (Suc (length cs) - 50) (cs @ [c])"
    by (subst items_foldl) (simp_all add: init_state_def pre_buffer_maxlen_50)
  with run_utterance_open [OF start, of e cs c "[]"] show ?thesis
    by simp
qed

lemma hd_map_upt: "i < j \<Longrightarrow> hd (map f [i..<j] @ xs) = f i"
  by (simp add: upt_conv_Cons del: upt_Suc)

lemma first_utterance:
  assumes "length s2 = 26"
  shows "run_loop e init_state (speech c # map silence s2 @ [silence c']) =
     (case process_audio e (c # c # s2 @ [c']) of
        (Some err, tr) \<Rightarrow>
          (Some err,
           init_state\<lparr>pre_buffer := foldl deque_append (pre_buffer init_state) (c # s2 @ [c']),
             recording_buffer := c # c # s2 @ [c'],
             is_recording := True, silence_chunks := 27\<rparr>,
           Print_recording # Print_processing # Call_process_audio (c # c # s2 @ [c']) # tr)
      | (None, tr) \<Rightarrow>
          (None,
           init_state\<lparr>pre_buffer := foldl deque_append (pre_buffer init_state) (c # s2 @ [c']),
             recording_buffer := [],
             is_recording := False, silence_chunks := 0\<rparr>,
           Print_recording # Print_processing # Call_process_audio (c # c # s2 @ [c']) # tr))"
proof -
  have start: "running init_state" "\<not> is_recording init_state"
    by (simp_all add: init_state_def)
  have "items (foldl deque_append (pre_buffer init_state) ([] @ [c])) = [c]"
    by (simp add: init_state_def pre_buffer_maxlen_50 items_deque_append)
  with run_utterance_close [OF start assms, of e "[]" c "[]" c'] show ?thesis
    by (simp add: Let_def del: run_loop.simps split: prod.splits option.splits)
qed

lemma process_audio_engine_raises:
  assumes "audio_np_of buf = Inr smp" and "8000 \<le> length smp" and "transcribe e smp = Inl err"
  shows "process_audio e buf = (Some err, [Call_transcribe smp])"
  by (simp add: process_audio_long [OF assms(1, 2)] assms(3))

lemma utterance_then_silence:
  assumes "length s2 = 26"
  shows "snd (snd (run_loop e init_state
            (map silence s1 @ speech c # map speech sp @ map silence s2 @ [silence c'] @
             map silence rest))) =
         Print_recording # Print_processing #
         Call_process_audio
           (items (foldl deque_append (pre_buffer init_state) (s1 @ [c])) @ c # sp @ s2 @ [c']) #
         snd (process_audio e
           (items (foldl deque_append (pre_buffer init_state) (s1 @ [c])) @ c # sp @ s2 @ [c']))"
proof -
  let ?ticks = "map silence s1 @ speech c # map speech sp @ map silence s2 @ [silence c']"
  let ?buf = "items (foldl deque_append (pre_buffer init_state) (s1 @ [c])) @ c # sp @ s2 @ [c']"
  let ?pb = "foldl deque_append (pre_buffer init_state) (s1 @ c # sp @ s2 @ [c'])"
  have start: "running init_state" "\<not> is_recording init_state"
    by (simp_all add: init_state_def)
  note close = run_utterance_close [OF start assms, of e s1 c sp c', unfolded Let_def]
  obtain r tr where pa: "process_audio e ?buf = (r, tr)"
    by (cases "process_audio e ?buf") auto
  have split: "map silence s1 @ speech c # map speech sp @ map silence s2 @ [silence c'] @
      map silence rest = ?ticks @ map silence rest"
    by simp
  show ?thesis
  proof (cases r)
    case (Some err)
    with close pa have "run_loop e init_state ?ticks =
        (Some err,
         init_state\<lparr>pre_buffer := ?pb, recording_buffer := ?buf,
           is_recording := True, silence_chunks := 27\<rparr>,
         Print_recording # Print_processing # Call_process_audio ?buf # tr)"
      by simp
    then show ?thesis
      unfolding split run_loop_append [of e init_state ?ticks] pa by simp
  next
    case None
    let ?idle = "init_state\<lparr>pre_buffer := ?pb, recording_buffer := [],
        is_recording := False, silence_chunks := 0\<rparr>"
    from None close pa have one: "run_loop e init_state ?ticks =
        (None, ?idle, Print_recording # Print_processing # Call_process_audio ?buf # tr)"
      by simp
    have "run_loop e ?idle (map silence rest) =
        (None, ?idle\<lparr>pre_buffer := foldl deque_append (pre_buffer ?idle) rest\<rparr>, [])"
      using start by (intro run_idle_silence) simp_all
    with one have "run_loop e init_state (?ticks @ map silence rest) =
        (None, ?idle\<lparr>pre_buffer := foldl deque_append (pre_buffer ?idle) rest\<rparr>,
         (Print_recording # Print_processing # Call_process_audio ?buf # tr) @ [])"
      by (rule run_loop_append_None)
    then show ?thesis
      unfolding split pa by simp
  qed
qed

lemma items_after_silence:
  "50 \<le> length s1 \<Longrightarrow>
   items (foldl deque_append (pre_buffer init_state) (s1 @ [c])) = drop (length s1 - 49) s1 @ [c]"
  by (subst items_foldl) (simp_all add: init_state_def pre_buffer_maxlen_50)

lemma run_loop_pre_buffer_any:
  "running s \<Longrightarrow> run_loop e s ts = (r, s', tr) \<Longrightarrow>
   \<exists>k\<le>length ts. (r = None \<longrightarrow> k = length ts) \<and>
      pre_buffer s' = foldl deque_append (pre_buffer s) (got_chunks (take k ts))"
proof (induction ts arbitrary: s tr r s')
  case Nil
  then show ?case by simp
next
  case (Cons t ts)
  obtain r1 s1 tr1 where it: "iteration e s t = (r1, s1, tr1)"
    by (cases "iteration e s t") auto
  from iteration_pre_buffer [OF it] Cons.prems(1)
  have pb: "pre_buffer s1 = foldl deque_append (pre_buffer s) (got_chunks [t])"
    and run1: "running s1"
    by (cases t; simp)+
  show ?case
  proof (cases r1)
    case (Some err)
    with Cons.prems it have "r = Some err" and "s' = s1"
      by simp_all
    with pb have "1 \<le> length (t # ts) \<and> (r = None \<longrightarrow> 1 = length (t # ts)) \<and>
        pre_buffer s' = foldl deque_append (pre_buffer s) (got_chunks (take 1 (t # ts)))"
      by simp
    then show ?thesis by blast
  next
    case None
    obtain r2 s2 tr2 where rl: "run_loop e s1 ts = (r2, s2, tr2)"
      by (cases "run_loop e s1 ts") auto
    from Cons.prems it None rl have r: "r2 = r" and s: "s2 = s'"
      by simp_all
    from Cons.IH [OF run1 rl] r s obtain k where k: "k \<le> length ts"
      and all: "r = None \<longrightarrow> k = length ts"
      and pb': "pre_buffer s' = foldl deque_append (pre_buffer s1) (got_chunks (take k ts))"
      by blast
    have "got_chunks (take (Suc k) (t # ts)) = got_chunks [t] @ got_chunks (take k ts)"
      by (cases t) simp_all
    with pb pb' have "pre_buffer s' =
        foldl deque_append (pre_buffer s) (got_chunks (take (Suc k) (t # ts)))"
      by simp
    with k all have "Suc k \<le> length (t # ts) \<and> (r = None \<longrightarrow> Suc k = length (t # ts)) \<and>
        pre_buffer s' = foldl deque_append (pre_buffer s) (got_chunks (take (Suc k) (t # ts)))"
      by simp
    then show ?thesis by blast
  qed
qed

section \<open>Silence while recording\<close>

text \<open>
  After a chunk classified as speech the loop is recording with the counter at zero. The
  first 26 silent chunks that follow are appended and counted with no event; the 27th
  hands the buffer to \<open>process_audio\<close>, and the state is reset only in the branch where
  that call returns. Turns that time out on the queue change nothing.
\<close>

lemma silence_run_while_recording:
  assumes "running s0" and "length cs = 27"
  shows "\<exists>s. iteration e s0 (speech c0) =
               (None, s, if is_recording s0 then [] else [Print_recording]) \<and>
             is_recording s \<and> silence_chunks s = 0 \<and>
             (\<forall>k<27. run_loop e s (map silence (take k cs)) =
                (None,
                 s\<lparr>pre_buffer := foldl deque_append (pre_buffer s) (take k cs),
                   recording_buffer := recording_buffer s @ take k cs,
                   silence_chunks := k\<rparr>,
                 [])) \<and>
             run_loop e s (map silence cs) =
               (case process_audio e (recording_buffer s @ cs) of
                  (Some err, tr) \<Rightarrow>
                    (Some err,
                     s\<lparr>pre_buffer := foldl deque_append (pre_buffer s) cs,
                       recording_buffer := recording_buffer s @ cs,
                       silence_chunks := 27\<rparr>,
                     Print_processing # Call_process_audio (recording_buffer s @ cs) # tr)
                | (None, tr) \<Rightarrow>
                    (None,
                     s\<lparr>pre_buffer := foldl deque_append (pre_buffer s) cs,
                       recording_buffer := [],
                       is_recording := False,
                       silence_chunks := 0\<rparr>,
                     Print_processing # Call_process_audio (recording_buffer s @ cs) # tr)) \<and>
             \<lceil>SILENCE_DURATION_SEC / (of_nat CHUNK_DURATION_MS / 1000)\<rceil> = 27"
proof -
  from iteration_speech_result [of e s0 c0] assms(1) obtain s where
    it: "iteration e s0 (speech c0) = (None, s, if is_recording s0 then [] else [Print_recording])"
    and rec: "is_recording s" and zero: "silence_chunks s = 0" and run: "running s"
    by auto
  have early: "run_loop e s (map silence (take k cs)) =
      (None,
       s\<lparr>pre_buffer := foldl deque_append (pre_buffer s) (take k cs),
         recording_buffer := recording_buffer s @ take k cs,
         silence_chunks := k\<rparr>,
       [])" if "k < 27" for k
  proof -
    have "silence_chunks s + length (take k cs) < 27"
      using that assms(2) zero by simp
    from run_recording_silence [OF run rec this] that assms(2) zero show ?thesis
      by simp
  qed
  obtain pre c where cs: "cs = pre @ [c]" and pre: "length pre = 26"
    using assms(2) by (cases cs rule: rev_cases) simp_all
  let ?s26 = "s\<lparr>pre_buffer := foldl deque_append (pre_buffer s) pre,
                 recording_buffer := recording_buffer s @ pre,
                 silence_chunks := silence_chunks s + length pre\<rparr>"
  have "silence_chunks s + length pre < 27"
    using pre zero by simp
  from run_recording_silence [OF run rec this]
  have r26: "run_loop e s (map silence pre) = (None, ?s26, [])" .
  obtain r s' tr' where last: "iteration e ?s26 (silence c) = (r, s', tr')"
    by (cases "iteration e ?s26 (silence c)") auto
  have "running ?s26"
    using run by simp
  then have "run_loop e ?s26 [silence c] = (r, s', tr')"
    using last by (simp only: run_loop_single)
  with r26 have "run_loop e s (map silence pre @ [silence c]) = (r, s', [] @ tr')"
    by (rule run_loop_append_None)
  then have whole: "run_loop e s (map silence cs) = (r, s', tr')"
    by (simp add: cs)
  have fin: "iteration e ?s26 (silence c) =
     (case process_audio e (recording_buffer ?s26 @ [c]) of
        (Some err, tr) \<Rightarrow>
          (Some err,
           ?s26\<lparr>pre_buffer := deque_append (pre_buffer ?s26) c,
             recording_buffer := recording_buffer ?s26 @ [c],
             silence_chunks := Suc (silence_chunks ?s26)\<rparr>,
           Print_processing # Call_process_audio (recording_buffer ?s26 @ [c]) # tr)
      | (None, tr) \<Rightarrow>
          (None,
           ?s26\<lparr>pre_buffer := deque_append (pre_buffer ?s26) c,
             recording_buffer := [],
             is_recording := False,
             silence_chunks := 0\<rparr>,
           Print_processing # Call_process_audio (recording_buffer ?s26 @ [c]) # tr))"
    using rec pre zero by (intro iteration_finalize) simp_all
  have final: "run_loop e s (map silence cs) =
      (case process_audio e (recording_buffer s @ cs) of
         (Some err, tr) \<Rightarrow>
           (Some err,
            s\<lparr>pre_buffer := foldl deque_append (pre_buffer s) cs,
              recording_buffer := recording_buffer s @ cs,
              silence_chunks := 27\<rparr>,
            Print_processing # Call_process_audio (recording_buffer s @ cs) # tr)
       | (None, tr) \<Rightarrow>
           (None,
            s\<lparr>pre_buffer := foldl deque_append (pre_buffer s) cs,
              recording_buffer := [],
              is_recording := False,
              silence_chunks := 0\<rparr>,
            Print_processing # Call_process_audio (recording_buffer s @ cs) # tr))"
    unfolding whole using fin pre zero unfolding last
    by (simp add: cs split: prod.splits option.splits)
  from it rec zero early final ceiling_threshold show ?thesis
    by blast
qed

lemma run_loop_ignores_timeouts:
  "run_loop e s ts = run_loop e s (filter (\<lambda>t. t \<noteq> Queue_empty) ts)"
proof (induction ts arbitrary: s)
  case Nil
  then show ?case by simp
next
  case (Cons t ts)
  show ?case
  proof (cases "running s")
    case False
    then show ?thesis
      by (cases "filter (\<lambda>t. t \<noteq> Queue_empty) (t # ts)") simp_all
  next
    case True
    show ?thesis
    proof (cases t)
      case Queue_empty
      with True Cons.IH [of s] show ?thesis
        by (simp split: prod.splits)
    next
      case (Got c v)
      with True Cons.IH show ?thesis
        by (simp split: prod.splits option.splits)
    qed
  qed
qed

lemma silence_run_with_timeouts:
  assumes "running s0" and "length cs = 27"
  shows "\<exists>s. iteration e s0 (speech c0) =
               (None, s, if is_recording s0 then [] else [Print_recording]) \<and>
             is_recording s \<and> silence_chunks s = 0 \<and>
             (\<forall>k ts. k < 27 \<longrightarrow>
                filter (\<lambda>t. t \<noteq> Queue_empty) ts = map silence (take k cs) \<longrightarrow>
                run_loop e s ts =
                  (None,
                   s\<lparr>pre_buffer := foldl deque_append (pre_buffer s) (take k cs),
                     recording_buffer := recording_buffer s @ take k cs,
                     silence_chunks := k\<rparr>,
                   [])) \<and>
             (\<forall>ts. filter (\<lambda>t. t \<noteq> Queue_empty) ts = map silence cs \<longrightarrow>
                run_loop e s ts =
                  (case process_audio e (recording_buffer s @ cs) of
                     (Some err, tr) \<Rightarrow>
                       (Some err,
                        s\<lparr>pre_buffer := foldl deque_append (pre_buffer s) cs,
                          recording_buffer := recording_buffer s @ cs,
                          silence_chunks := 27\<rparr>,
                        Print_processing # Call_process_audio (recording_buffer s @ cs) # tr)
                   | (None, tr) \<Rightarrow>
                       (None,
                        s\<lparr>pre_buffer := foldl deque_append (pre_buffer s) cs,
                          recording_buffer := [],
                          is_recording := False,
                          silence_chunks := 0\<rparr>,
                        Print_processing # Call_process_audio (recording_buffer s @ cs) # tr)))"
proof -
  from silence_run_while_recording [OF assms, of e c0] obtain s where
    it: "iteration e s0 (speech c0) = (None, s, if is_recording s0 then [] else [Print_recording])"
    and rec: "is_recording s" and zero: "silence_chunks s = 0"
    and early: "\<forall>k<27. run_loop e s (map silence (take k cs)) =
        (None,
         s\<lparr>pre_buffer := foldl deque_append (pre_buffer s) (take k cs),
           recording_buffer := recording_buffer s @ take k cs,
           silence_chunks := k\<rparr>,
         [])"
    and final: "run_loop e s (map silence cs) =
        (case process_audio e (recording_buffer s @ cs) of
           (Some err, tr) \<Rightarrow>
             (Some err,
              s\<lparr>pre_buffer := foldl deque_append (pre_buffer s) cs,
                recording_buffer := recording_buffer s @ cs,
                silence_chunks := 27\<rparr>,
              Print_processing # Call_process_audio (recording_buffer s @ cs) # tr)
         | (None, tr) \<Rightarrow>
             (None,
              s\<lparr>pre_buffer := foldl deque_append (pre_buffer s) cs,
                recording_buffer := [],
                is_recording := False,
                silence_chunks := 0\<rparr>,
              Print_processing # Call_process_audio (recording_buffer s @ cs) # tr))"
    by blast
  have a: "run_loop e s ts =
      (None,
       s\<lparr>pre_buffer := foldl deque_append (pre_buffer s) (take k cs),
         recording_buffer := recording_buffer s @ take k cs,
         silence_chunks := k\<rparr>,
       [])"
    if "k < 27" and "filter (\<lambda>t. t \<noteq> Queue_empty) ts = map silence (take k cs)" for k ts
    using early that by (subst run_loop_ignores_timeouts) simp
  have b: "run_loop e s ts =
        (case process_audio e (recording_buffer s @ cs) of
           (Some err, tr) \<Rightarrow>
             (Some err,
              s\<lparr>pre_buffer := foldl deque_append (pre_buffer s) cs,
                recording_buffer := recording_buffer s @ cs,
                silence_chunks := 27\<rparr>,
              Print_processing # Call_process_audio (recording_buffer s @ cs) # tr)
         | (None, tr) \<Rightarrow>
             (None,
              s\<lparr>pre_buffer := foldl deque_append (pre_buffer s) cs,
                recording_buffer := [],
                is_recording := False,
                silence_chunks := 0\<rparr>,
              Print_processing # Call_process_audio (recording_buffer s @ cs) # tr))"
    if "filter (\<lambda>t. t \<noteq> Queue_empty) ts = map silence cs" for ts
    using final that by (subst run_loop_ignores_timeouts) simp
  from it rec zero a b show ?thesis
    by blast
qed

lemma first_utterance_engine_raises:
  assumes len: "length s2 = 26"
      and frames: "\<forall>x\<in>set (c # s2 @ [c']). length x = 2 * CHUNK_SIZE"
      and raises: "\<forall>smp. transcribe e smp = Inl err"
  shows "\<exists>smp. run_loop e init_state (speech c # map silence s2 @ [silence c']) =
       (Some err,
        init_state\<lparr>pre_buffer := foldl deque_append (pre_buffer init_state) (c # s2 @ [c']),
           recording_buffer := c # c # s2 @ [c'],
           is_recording := True, silence_chunks := 27\<rparr>,
        [Print_recording, Print_processing, Call_process_audio (c # c # s2 @ [c']),
         Call_transcribe smp])"
proof -
  let ?buf = "c # c # s2 @ [c']"
  from frames have "\<forall>x\<in>set ?buf. length x = 2 * CHUNK_SIZE"
    by simp
  from audio_np_of_uniform [OF this] obtain smp where
    smp: "audio_np_of ?buf = Inr smp" and n: "length smp = CHUNK_SIZE * length ?buf"
    by blast
  from n len have long: "8000 \<le> length smp"
    by (simp add: CHUNK_SIZE_480)
  from raises have "transcribe e smp = Inl err"
    by simp
  with smp long have pa: "process_audio e ?buf = (Some err, [Call_transcribe smp])"
    by (rule process_audio_engine_raises)
  from first_utterance [OF len, of e c c']
  have "run_loop e init_state (speech c # map silence s2 @ [silence c']) =
       (Some err,
        init_state\<lparr>pre_buffer := foldl deque_append (pre_buffer init_state) (c # s2 @ [c']),
           recording_buffer := ?buf,
           is_recording := True, silence_chunks := 27\<rparr>,
        [Print_recording, Print_processing, Call_process_audio ?buf, Call_transcribe smp])"
    unfolding pa by (simp del: run_loop.simps)
  then show ?thesis
    by blast
qed

section \<open>The claims\<close>

text \<open>
  C4. After any run of the loop from the initial state, whether it used up its ticks or
  was ended by an exception in some turn, the pre-buffer holds exactly the last
  \<open>min n 50\<close> of the \<open>n\<close> chunks taken from the queue up to and including that turn, in
  arrival order; its bound is still the 50 computed at construction; and once 50 chunks
  have arrived, each further chunk pushes out the oldest one.
\<close>

theorem pre_buffer_holds_last_chunks:
  assumes "run_loop e init_state ticks = (r, s, tr)"
  shows "\<exists>k\<le>length ticks. (r = None \<longrightarrow> k = length ticks) \<and>
           items (pre_buffer s) =
             drop (length (got_chunks (take k ticks)) - 50) (got_chunks (take k ticks)) \<and>
           length (items (pre_buffer s)) = min (length (got_chunks (take k ticks))) 50 \<and>
           maxlen (pre_buffer s) = 50 \<and>
           pre_buffer_maxlen = 50 \<and>
           (\<forall>c v. 50 \<le> length (got_chunks (take k ticks)) \<longrightarrow>
              items (pre_buffer (fst (snd (iteration e s (Got c v))))) =
                tl (items (pre_buffer s)) @ [c])"
proof -
  have "running init_state"
    by (simp add: init_state_def)
  from run_loop_pre_buffer_any [OF this assms] obtain k where k: "k \<le> length ticks"
    and all: "r = None \<longrightarrow> k = length ticks"
    and pb: "pre_buffer s = foldl deque_append (pre_buffer init_state) (got_chunks (take k ticks))"
    by blast
  let ?cs = "got_chunks (take k ticks)"
  have its: "items (pre_buffer s) = drop (length ?cs - 50) ?cs"
    unfolding pb by (subst items_foldl) (simp_all add: init_state_def pre_buffer_maxlen_50)
  have ml: "maxlen (pre_buffer s) = 50"
    unfolding pb by (simp add: init_state_def pre_buffer_maxlen_50)
  have len: "length (items (pre_buffer s)) = min (length ?cs) 50"
    unfolding its by simp
  have step: "items (pre_buffer (fst (snd (iteration e s (Got c v))))) = tl (items (pre_buffer s)) @ [c]"
    if "50 \<le> length ?cs" for c v
  proof -
    obtain r1 s1 tr1 where it: "iteration e s (Got c v) = (r1, s1, tr1)"
      by (cases "iteration e s (Got c v)") auto
    from iteration_pre_buffer [OF it] have "pre_buffer s1 = deque_append (pre_buffer s) c"
      by simp
    moreover have "items (pre_buffer s) \<noteq> []"
      using len that by auto
    ultimately show ?thesis
      using len ml that by (simp add: it items_deque_append)
  qed
  from k all its len ml step pre_buffer_maxlen_50 show ?thesis
    by blast
qed

theorem pre_buffer_holds_last_chunks_witness:
  "fst (run_loop typing_env init_state (map (\<lambda>n. silence [of_nat n, 0]) [0..<60])) = None \<and>
   items (pre_buffer (fst (snd (run_loop typing_env init_state
      (map (\<lambda>n. silence [of_nat n, 0]) [0..<60]))))) = map (\<lambda>n. [of_nat n, 0]) [10..<60] \<and>
   items (pre_buffer (fst (snd (iteration typing_env
      (fst (snd (run_loop typing_env init_state (map (\<lambda>n. silence [of_nat n, 0]) [0..<60]))))
      (speech [7, 7]))))) = map (\<lambda>n. [of_nat n, 0]) [11..<60] @ [[7, 7]]"
proof -
  let ?cs = "map (\<lambda>n. [of_nat n, 0 :: 8 word]) [0..<60]"
  let ?ticks = "map (\<lambda>n. silence [of_nat n, 0]) [0..<60]"
  let ?res = "run_loop typing_env init_state ?ticks"
  have ticks: "?ticks = map silence ?cs"
    by simp
  have idle: "running init_state" "\<not> is_recording init_state"
    by (simp_all add: init_state_def)
  have run: "?res = (None, init_state\<lparr>pre_buffer := foldl deque_append (pre_buffer init_state) ?cs\<rparr>, [])"
    unfolding ticks by (rule run_idle_silence [OF idle])
  then have hyp: "?res = (None, fst (snd ?res), snd (snd ?res))"
    by simp
  have got: "got_chunks ?ticks = ?cs"
    unfolding ticks by (rule got_chunks_silence)
  from pre_buffer_holds_last_chunks [OF hyp] obtain k where
    k: "k = length ?ticks"
    and a0: "items (pre_buffer (fst (snd ?res))) =
      drop (length (got_chunks (take k ?ticks)) - 50) (got_chunks (take k ?ticks))"
    and b0: "\<forall>c v. 50 \<le> length (got_chunks (take k ?ticks)) \<longrightarrow>
      items (pre_buffer (fst (snd (iteration typing_env (fst (snd ?res)) (Got c v))))) =
      tl (items (pre_buffer (fst (snd ?res)))) @ [c]"
    by blast
  have whole: "take k ?ticks = ?ticks"
    unfolding k by (rule take_all) simp
  from a0 have a: "items (pre_buffer (fst (snd ?res))) = drop (length ?cs - 50) ?cs"
    unfolding whole got .
  from b0 have b: "50 \<le> length ?cs \<longrightarrow>
      items (pre_buffer (fst (snd (iteration typing_env (fst (snd ?res)) (speech [7, 7]))))) =
      tl (items (pre_buffer (fst (snd ?res)))) @ [[7, 7]]"
    unfolding whole got by blast
  have c1: "fst ?res = None"
    by (simp add: run)
  have c2: "items (pre_buffer (fst (snd ?res))) = map (\<lambda>n. [of_nat n, 0]) [10..<60]"
    unfolding a by (simp add: drop_map)
  have c3: "items (pre_buffer (fst (snd (iteration typing_env (fst (snd ?res)) (speech [7, 7]))))) =
      map (\<lambda>n. [of_nat n, 0]) [11..<60] @ [[7, 7]]"
    using b unfolding c2 by simp
  from c1 c2 c3 show ?thesis
    by (intro conjI)
qed

text \<open>
  C8. For chunks that each hold whole 16-bit samples, the array built by the first
  statement of \<open>process_audio\<close> is the concatenation, in order, of the chunks' samples,
  each divided by 32768, and every value of it lies in the closed interval from \<open>-1\<close>
  to \<open>1\<close>.
\<close>

theorem samples_concatenated_and_normalised:
  assumes "\<forall>c\<in>set audio_data. even (length c)"
  shows "audio_np_of audio_data =
           Inr (map (\<lambda>w. of_int (sint w) / 32768) (concat (map int16_le audio_data))) \<and>
         (\<forall>x\<in>set (map (\<lambda>w. (of_int (sint w) :: rat) / 32768) (concat (map int16_le audio_data))).
            - 1 \<le> x \<and> x \<le> 1)"
proof -
  have "even (length (concat audio_data))"
    using assms by (rule even_length_concat)
  then have eq: "audio_np_of audio_data =
      Inr (map (\<lambda>w. of_int (sint w) / 32768) (concat (map int16_le audio_data)))"
    using assms by (simp add: audio_np_of_def frombuffer_int16_def int16_le_concat)
  with audio_np_of_bounds [OF eq] show ?thesis
    by blast
qed

theorem samples_concatenated_and_normalised_witness:
  "even (length [0, 128 :: 8 word]) \<and> even (length [255, 127, 1, 0 :: 8 word]) \<and>
   audio_np_of [[0, 128], [255, 127, 1, 0]] = Inr [- 1, 32767 / 32768, 1 / 32768]"
  using samples_concatenated_and_normalised [of "[[0, 128], [255, 127, 1, 0]]"]
  by simp

text \<open>
  C6. When the assembled samples last less than half a second (their number divided by
  \<open>RATE\<close> is below \<open>1 / 2\<close>), \<open>process_audio\<close> returns normally with no event at
  all: no call of the engine, no call of a typing tool, nothing printed, no exception.
\<close>

theorem short_utterance_dropped:
  assumes "audio_np_of audio_data = Inr smp"
      and "(of_nat (length smp) :: rat) / of_nat RATE < 1 / 2"
  shows "process_audio e audio_data = (None, [])"
proof -
  have "(of_nat (length smp) :: rat) < (1 / 2) * of_nat RATE"
    using assms(2) by (simp only: short_iff)
  then show ?thesis
    using assms(1) by (simp add: process_audio_def)
qed

theorem short_utterance_dropped_witness:
  "audio_np_of (replicate 16 (frame 0)) = Inr (replicate 7680 0) \<and>
   (of_nat (length (replicate 7680 (0 :: rat))) :: rat) / of_nat RATE < 1 / 2 \<and>
   process_audio typing_env (replicate 16 (frame 0)) = (None, [])"
proof -
  have a: "audio_np_of (replicate 16 (frame 0)) = Inr (replicate 7680 0)"
    by (simp add: audio_np_of_frames CHUNK_SIZE_480)
  have b: "(of_nat (length (replicate 7680 (0 :: rat))) :: rat) / of_nat RATE < 1 / 2"
    by (simp add: RATE_def)
  from short_utterance_dropped [OF a b] a b show ?thesis
    by blast
qed

text \<open>
  C7. When the engine returns segments, \<open>process_audio\<close> keeps the stripped texts that
  are not empty, joins them with single spaces, and calls the typing tools exactly when
  the joined text is not empty (which is exactly when some segment was kept), each time
  with the joined text followed by one space; with an empty joined text the call of the
  engine is the only event.
\<close>

theorem dispatch_joins_and_types:
  assumes "audio_np_of audio_data = Inr smp"
      and "\<not> (of_nat (length smp) :: rat) / of_nat RATE < 1 / 2"
      and "transcribe e smp = Inr segments"
  shows "let kept = filter (\<lambda>t. t \<noteq> []) (map (\<lambda>g. strip (segment_text g)) segments);
             full_text = join [32] kept;
             tr = snd (process_audio e audio_data)
         in process_audio e audio_data =
              (None, Call_transcribe smp # (if full_text = [] then [] else type_text e full_text)) \<and>
            (full_text = [] \<longleftrightarrow> kept = []) \<and>
            (\<forall>arg. Run_ydotool arg \<in> set tr \<longleftrightarrow> full_text \<noteq> [] \<and> arg = full_text @ [32]) \<and>
            (\<forall>arg. Run_xdotool arg \<in> set tr \<longrightarrow> full_text \<noteq> [] \<and> arg = full_text @ [32])"
proof -
  define kept where "kept = filter (\<lambda>t. t \<noteq> []) (map (\<lambda>g. strip (segment_text g)) segments)"
  define full_text where "full_text = join [32] kept"
  have long: "\<not> (of_nat (length smp) :: rat) < (1 / 2) * of_nat RATE"
    unfolding short_iff by (rule assms(2))
  have pa: "process_audio e audio_data =
      (None, Call_transcribe smp # (if full_text = [] then [] else type_text e full_text))"
    using assms(1) assms(3) long
    by (simp add: process_audio_def kept_segments full_text_def kept_def Let_def)
  have "\<forall>x\<in>set kept. x \<noteq> []"
    by (simp add: kept_def)
  then have empty: "full_text = [] \<longleftrightarrow> kept = []"
    unfolding full_text_def by (rule join_eq_Nil_iff)
  have y: "Run_ydotool arg \<in> set (snd (process_audio e audio_data)) \<longleftrightarrow>
      full_text \<noteq> [] \<and> arg = full_text @ [32]" for arg
    by (simp add: pa type_text_ydotool)
  have x: "Run_xdotool arg \<in> set (snd (process_audio e audio_data)) \<longrightarrow>
      full_text \<noteq> [] \<and> arg = full_text @ [32]" for arg
    using type_text_xdotool [of arg e full_text] by (auto simp: pa)
  from pa empty y x show ?thesis
    unfolding Let_def kept_def [symmetric] full_text_def [symmetric] by blast
qed

theorem dispatch_joins_and_types_witness:
  "audio_np_of (replicate 17 (frame 0)) = Inr (replicate 8160 0) \<and>
   \<not> (of_nat (length (replicate 8160 (0 :: rat))) :: rat) / of_nat RATE < 1 / 2 \<and>
   process_audio typing_env (replicate 17 (frame 0)) =
     (None,
      [Call_transcribe (replicate 8160 0),
       Run_ydotool [104, 105, 32, 121, 111, 117, 32],
       Run_xdotool [104, 105, 32, 121, 111, 117, 32],
       Print_typed [104, 105, 32, 121, 111, 117]])"
proof -
  let ?segs = "[\<lparr>segment_text = [32, 104, 105, 32]\<rparr>, \<lparr>segment_text = [32, 10]\<rparr>,
                \<lparr>segment_text = [121, 111, 117]\<rparr>]"
  have a: "audio_np_of (replicate 17 (frame 0)) = Inr (replicate 8160 0)"
    by (simp add: audio_np_of_frames CHUNK_SIZE_480)
  have b: "\<not> (of_nat (length (replicate 8160 (0 :: rat))) :: rat) / of_nat RATE < 1 / 2"
    by (simp add: RATE_def)
  have c: "transcribe typing_env (replicate 8160 0) = Inr ?segs"
    by (simp add: typing_env_def)
  have s1: "strip [32, 104, 105, 32] = [104, 105]"
    by (simp add: strip_def isspace_def)
  have s2: "strip [32, 10] = []"
    by (simp add: strip_def isspace_def)
  have s3: "strip [121, 111, 117] = [121, 111, 117]"
    by (simp add: strip_def isspace_def)
  have t: "type_text typing_env [104, 105, 32, 121, 111, 117] =
      [Run_ydotool [104, 105, 32, 121, 111, 117, 32],
       Run_xdotool [104, 105, 32, 121, 111, 117, 32],
       Print_typed [104, 105, 32, 121, 111, 117]]"
    by (simp add: type_text_def typing_env_def)
  have k: "filter (\<lambda>t. t \<noteq> []) (map (\<lambda>g. strip (segment_text g)) ?segs) =
      [[104, 105], [121, 111, 117]]"
    by (simp add: s1 s2 s3)
  have j: "join [32] [[104, 105], [121, 111, 117]] = [104, 105, 32, 121, 111, 117]"
    by simp
  note main = dispatch_joins_and_types [OF a b c, unfolded Let_def k j]
  from main have "process_audio typing_env (replicate 17 (frame 0)) =
      (None, Call_transcribe (replicate 8160 0) #
         (if [104, 105, 32, 121, 111, 117] = ([] :: nat list) then []
          else type_text typing_env [104, 105, 32, 121, 111, 117]))"
    by (rule conjunct1)
  then have "process_audio typing_env (replicate 17 (frame 0)) =
     (None,
      [Call_transcribe (replicate 8160 0),
       Run_ydotool [104, 105, 32, 121, 111, 117, 32],
       Run_xdotool [104, 105, 32, 121, 111, 117, 32],
       Print_typed [104, 105, 32, 121, 111, 117]])"
    unfolding t by simp
  with a b show ?thesis
    by blast
qed

text \<open>
  C10. At the head of every turn of the loop reached from the initial state: while
  recording, the accumulated silence \<open>silence_chunks * CHUNK_DURATION_MS / 1000\<close> is
  below \<open>SILENCE_DURATION_SEC\<close>, that is the counter is at most 26; while idle, the
  recording buffer is empty and the counter is zero. And in the turn where one more
  silent chunk brings the accumulated silence to the threshold, the buffer is handed to
  \<open>process_audio\<close> within that same turn.
\<close>

theorem loop_head_invariant:
  assumes "run_loop e init_state ticks = (None, s, tr)"
  shows "(is_recording s \<longrightarrow>
            (of_nat (silence_chunks s * CHUNK_DURATION_MS) :: rat) / 1000 < SILENCE_DURATION_SEC \<and>
            silence_chunks s \<le> 26) \<and>
         (\<not> is_recording s \<longrightarrow> recording_buffer s = [] \<and> silence_chunks s = 0) \<and>
         (\<forall>c. is_recording s \<and>
               (of_nat ((silence_chunks s + 1) * CHUNK_DURATION_MS) :: rat) / 1000
                 \<ge> SILENCE_DURATION_SEC \<longrightarrow>
               (\<exists>tr'. snd (snd (iteration e s (silence c))) =
                  Print_processing # Call_process_audio (recording_buffer s @ [c]) # tr'))"
proof -
  have inv: "if is_recording s
      then silence_chunks s \<le> 26 \<and> 2 + silence_chunks s \<le> length (recording_buffer s)
      else recording_buffer s = [] \<and> silence_chunks s = 0"
    using assms by (rule run_loop_keeps_invariant) (simp_all add: init_state_def pre_buffer_maxlen_50)
  have below: "(of_nat (silence_chunks s * CHUNK_DURATION_MS) :: rat) / 1000 < SILENCE_DURATION_SEC"
    if "is_recording s"
  proof -
    from inv that have "\<not> 27 \<le> silence_chunks s" by simp
    then show ?thesis
      by (simp only: silence_threshold [symmetric] not_le)
  qed
  have fire: "\<exists>tr'. snd (snd (iteration e s (silence c))) =
      Print_processing # Call_process_audio (recording_buffer s @ [c]) # tr'"
    if "is_recording s"
      and "(of_nat ((silence_chunks s + 1) * CHUNK_DURATION_MS) :: rat) / 1000 \<ge> SILENCE_DURATION_SEC"
    for c
  proof -
    from that(2) have "27 \<le> Suc (silence_chunks s)"
      by (simp only: silence_threshold Suc_eq_plus1)
    from iteration_finalize [OF that(1) this] show ?thesis
      by (simp split: prod.splits option.splits)
  qed
  from inv below fire show ?thesis
    by (auto simp del: of_nat_mult of_nat_add)
qed

theorem loop_head_invariant_witness:
  "run_loop typing_env init_state [silence (frame 0), Queue_empty] =
     (None, init_state\<lparr>pre_buffer := deque_append (pre_buffer init_state) (frame 0)\<rparr>, []) \<and>
   \<not> is_recording (init_state\<lparr>pre_buffer := deque_append (pre_buffer init_state) (frame 0)\<rparr>) \<and>
   recording_buffer (init_state\<lparr>pre_buffer := deque_append (pre_buffer init_state) (frame 0)\<rparr>) = [] \<and>
   fst (run_loop typing_env init_state (speech (frame 1) # map silence (replicate 26 (frame 0)))) = None \<and>
   is_recording (fst (snd (run_loop typing_env init_state
      (speech (frame 1) # map silence (replicate 26 (frame 0)))))) \<and>
   silence_chunks (fst (snd (run_loop typing_env init_state
      (speech (frame 1) # map silence (replicate 26 (frame 0)))))) = 26 \<and>
   hd (snd (snd (iteration typing_env
      (fst (snd (run_loop typing_env init_state
         (speech (frame 1) # map silence (replicate 26 (frame 0))))))
      (silence (frame 0))))) = Print_processing"
proof -
  let ?idle = "init_state\<lparr>pre_buffer := deque_append (pre_buffer init_state) (frame 0)\<rparr>"
  let ?ticks = "speech (frame 1) # map silence (replicate 26 (frame 0))"
  let ?res = "run_loop typing_env init_state ?ticks"
  have start: "running init_state" "\<not> is_recording init_state"
    by (simp_all add: init_state_def)
  have a: "run_loop typing_env init_state [silence (frame 0), Queue_empty] = (None, ?idle, [])"
    using start by (simp add: iteration_idle_silence)
  from loop_head_invariant [OF a] have a1: "\<not> is_recording ?idle \<longrightarrow> recording_buffer ?idle = []"
    by blast
  have a2: "\<not> is_recording ?idle"
    using start by simp
  have "run_loop typing_env init_state
      (map silence [] @ speech (frame 1) # map speech [] @ map silence (replicate 26 (frame 0))) =
      (None,
       init_state\<lparr>pre_buffer := foldl deque_append (pre_buffer init_state)
            ([] @ frame 1 # [] @ replicate 26 (frame 0)),
          recording_buffer := items (foldl deque_append (pre_buffer init_state) ([] @ [frame 1])) @
            frame 1 # [] @ replicate 26 (frame 0),
          is_recording := True,
          silence_chunks := length (replicate 26 (frame (0 :: 8 word)))\<rparr>,
       [Print_recording])"
    using start by (intro run_utterance_open) simp_all
  then have b: "?res = (None, fst (snd ?res), snd (snd ?res))"
    and rec: "is_recording (fst (snd ?res))" and cnt: "silence_chunks (fst (snd ?res)) = 26"
    by simp_all
  note inv = loop_head_invariant [OF b]
  have reach: "(of_nat ((silence_chunks (fst (snd ?res)) + 1) * CHUNK_DURATION_MS) :: rat) / 1000
      \<ge> SILENCE_DURATION_SEC"
    by (simp only: silence_threshold cnt)
  from inv rec reach obtain tr' where
    "snd (snd (iteration typing_env (fst (snd ?res)) (silence (frame 0)))) =
       Print_processing # Call_process_audio (recording_buffer (fst (snd ?res)) @ [frame 0]) # tr'"
    by blast
  then have c: "hd (snd (snd (iteration typing_env (fst (snd ?res)) (silence (frame 0))))) =
      Print_processing"
    by simp
  from b have b1: "fst ?res = None"
    by (metis fst_conv)
  from a a1 a2 b1 rec cnt c show ?thesis
    by blast
qed

text \<open>
  C3, evaluated on a speech frame followed by 27 silent frames with an engine that
  raises: after 26 silent frames nothing has been handed over and the counter is 26;
  the 27th silent frame hands the buffer to \<open>process_audio\<close>, but the exception leaves
  the loop before the reset, so the state is still recording, the buffer is not
  cleared and the counter stands at 27.
\<close>

theorem silence_run_hands_off_without_reset:
  "fst (run_loop failing_env init_state
     (speech (frame 1) # map silence (replicate 26 (frame 0)))) = None \<and>
   snd (snd (run_loop failing_env init_state
     (speech (frame 1) # map silence (replicate 26 (frame 0))))) = [Print_recording] \<and>
   silence_chunks (fst (snd (run_loop failing_env init_state
     (speech (frame 1) # map silence (replicate 26 (frame 0)))))) = 26 \<and>
   fst (run_loop failing_env init_state
     (speech (frame 1) # map silence (replicate 26 (frame 0)) @ [silence (frame 0)])) =
     Some TranscribeError \<and>
   take 3 (snd (snd (run_loop failing_env init_state
     (speech (frame 1) # map silence (replicate 26 (frame 0)) @ [silence (frame 0)])))) =
     [Print_recording, Print_processing,
      Call_process_audio (frame 1 # frame 1 # replicate 26 (frame 0) @ [frame 0])] \<and>
   is_recording (fst (snd (run_loop failing_env init_state
     (speech (frame 1) # map silence (replicate 26 (frame 0)) @ [silence (frame 0)])))) \<and>
   recording_buffer (fst (snd (run_loop failing_env init_state
     (speech (frame 1) # map silence (replicate 26 (frame 0)) @ [silence (frame 0)])))) =
     frame 1 # frame 1 # replicate 26 (frame 0) @ [frame 0] \<and>
   silence_chunks (fst (snd (run_loop failing_env init_state
     (speech (frame 1) # map silence (replicate 26 (frame 0)) @ [silence (frame 0)])))) = 27"
proof -
  let ?t26 = "speech (frame 1) # map silence (replicate 26 (frame 0))"
  let ?t27 = "speech (frame 1) # map silence (replicate 26 (frame 0)) @ [silence (frame 0)]"
  have start: "running init_state" "\<not> is_recording init_state"
    by (simp_all add: init_state_def)
  have "length (replicate 26 (frame (0 :: 8 word))) < 27"
    by simp
  from run_utterance_open [OF start this, of failing_env "[]" "frame 1" "[]"]
  have r26: "fst (run_loop failing_env init_state ?t26) = None"
    "snd (snd (run_loop failing_env init_state ?t26)) = [Print_recording]"
    "silence_chunks (fst (snd (run_loop failing_env init_state ?t26))) = 26"
    by (simp_all del: run_loop.simps)
  have len: "length (replicate 26 (frame (0 :: 8 word))) = 26"
    by simp
  have frames: "\<forall>x\<in>set (frame 1 # replicate 26 (frame 0) @ [frame 0]). length x = 2 * CHUNK_SIZE"
    by (simp add: frame_def)
  have raises: "\<forall>smp. transcribe failing_env smp = Inl TranscribeError"
    by (simp add: failing_env_def)
  from first_utterance_engine_raises [OF len frames raises] obtain smp where
    "run_loop failing_env init_state ?t27 =
       (Some TranscribeError,
        init_state\<lparr>pre_buffer := foldl deque_append (pre_buffer init_state)
             (frame 1 # replicate 26 (frame 0) @ [frame 0]),
           recording_buffer := frame 1 # frame 1 # replicate 26 (frame 0) @ [frame 0],
           is_recording := True, silence_chunks := 27\<rparr>,
        [Print_recording, Print_processing,
         Call_process_audio (frame 1 # frame 1 # replicate 26 (frame 0) @ [frame 0]),
         Call_transcribe smp])"
    by blast
  then have r27: "fst (run_loop failing_env init_state ?t27) = Some TranscribeError"
    "take 3 (snd (snd (run_loop failing_env init_state ?t27))) =
       [Print_recording, Print_processing,
        Call_process_audio (frame 1 # frame 1 # replicate 26 (frame 0) @ [frame 0])]"
    "is_recording (fst (snd (run_loop failing_env init_state ?t27)))"
    "recording_buffer (fst (snd (run_loop failing_env init_state ?t27))) =
       frame 1 # frame 1 # replicate 26 (frame 0) @ [frame 0]"
    "silence_chunks (fst (snd (run_loop failing_env init_state ?t27))) = 27"
    by simp_all
  from r26 r27 show ?thesis
    by (intro conjI)
qed

text \<open>
  C9. Every buffer that a run from the initial state hands to \<open>process_audio\<close> holds
  at least 29 chunks. When the chunks taken from the queue are device frames of
  \<open>CHUNK_SIZE\<close> samples, such a buffer assembles to at least \<open>29 * CHUNK_SIZE\<close>
  samples, that is at least 0.87 s, and the test of the discard branch of
  \<open>process_audio\<close> is false on it.
\<close>

theorem handed_off_buffers_pass_the_filter:
  assumes "run_loop e init_state ticks = (r, s, tr)"
      and "Call_process_audio buf \<in> set tr"
  shows "29 \<le> length buf \<and>
         ((\<forall>c\<in>set (got_chunks ticks). length c = 2 * CHUNK_SIZE) \<longrightarrow>
          (\<exists>smp. audio_np_of buf = Inr smp \<and>
             29 * CHUNK_SIZE \<le> length smp \<and>
             87 / 100 \<le> (of_nat (length smp) :: rat) / of_nat RATE \<and>
             \<not> (of_nat (length smp) :: rat) < (1 / 2) * of_nat RATE))"
proof -
  have start: "if is_recording init_state
      then silence_chunks init_state \<le> 26 \<and>
           2 + silence_chunks init_state \<le> length (recording_buffer init_state)
      else recording_buffer init_state = [] \<and> silence_chunks init_state = 0"
    "0 < maxlen (pre_buffer init_state)"
    by (simp_all add: init_state_def pre_buffer_maxlen_50)
  have len: "29 \<le> length buf"
    using run_loop_handoff [where P = "\<lambda>c. True", OF assms start] by simp
  have long: "\<exists>smp. audio_np_of buf = Inr smp \<and>
             29 * CHUNK_SIZE \<le> length smp \<and>
             87 / 100 \<le> (of_nat (length smp) :: rat) / of_nat RATE \<and>
             \<not> (of_nat (length smp) :: rat) < (1 / 2) * of_nat RATE"
    if frames: "\<forall>c\<in>set (got_chunks ticks). length c = 2 * CHUNK_SIZE"
  proof -
    have "\<forall>c\<in>set (items (pre_buffer init_state)) \<union> set (recording_buffer init_state).
        length c = 2 * CHUNK_SIZE"
      by (simp add: init_state_def)
    from run_loop_handoff [where P = "\<lambda>c. length c = 2 * CHUNK_SIZE", OF assms start this frames]
    have "\<forall>c\<in>set buf. length c = 2 * CHUNK_SIZE"
      by simp
    from audio_np_of_uniform [OF this] obtain smp where
      smp: "audio_np_of buf = Inr smp" and n: "length smp = CHUNK_SIZE * length buf"
      by blast
    from n len have n29: "29 * CHUNK_SIZE \<le> length smp"
      by simp
    then have "13920 \<le> length smp"
      by (simp add: CHUNK_SIZE_480)
    then have q: "(of_nat 13920 :: rat) \<le> of_nat (length smp)"
      by (simp only: of_nat_le_iff)
    then have "87 / 100 \<le> (of_nat (length smp) :: rat) / of_nat RATE"
      by (simp add: RATE_def field_simps)
    moreover from q have "\<not> (of_nat (length smp) :: rat) < (1 / 2) * of_nat RATE"
      by (simp add: RATE_def)
    ultimately show ?thesis
      using smp n29 by blast
  qed
  from len long show ?thesis
    by blast
qed

theorem handed_off_buffers_pass_the_filter_witness:
  "Call_process_audio (frame 1 # frame 1 # replicate 26 (frame 0) @ [frame 0]) \<in>
     set (snd (snd (run_loop typing_env init_state
       (speech (frame 1) # map silence (replicate 26 (frame 0)) @ [silence (frame 0)])))) \<and>
   list_all (\<lambda>c. length c = 2 * CHUNK_SIZE)
     (got_chunks (speech (frame 1) # map silence (replicate 26 (frame 0)) @ [silence (frame 0)])) \<and>
   29 \<le> length (frame 1 # frame 1 # replicate 26 (frame 0) @ [frame (0 :: 8 word)]) \<and>
   (\<exists>smp. audio_np_of (frame 1 # frame 1 # replicate 26 (frame 0) @ [frame 0]) = Inr smp \<and>
      \<not> (of_nat (length smp) :: rat) < (1 / 2) * of_nat RATE)"
proof -
  let ?ticks = "speech (frame 1) # map silence (replicate 26 (frame 0)) @ [silence (frame 0)]"
  let ?buf = "frame 1 # frame 1 # replicate 26 (frame 0) @ [frame (0 :: 8 word)]"
  let ?res = "run_loop typing_env init_state ?ticks"
  have "length (replicate 26 (frame (0 :: 8 word))) = 26"
    by simp
  from first_utterance [OF this, of typing_env "frame 1" "frame 0"]
  have mem: "Call_process_audio ?buf \<in> set (snd (snd ?res))"
    by (simp del: run_loop.simps split: prod.splits option.splits)
  have res: "?res = (fst ?res, fst (snd ?res), snd (snd ?res))"
    by simp
  have got: "got_chunks ?ticks = frame 1 # replicate 26 (frame 0) @ [frame 0]"
    using got_chunks_silence [of "replicate 26 (frame 0) @ [frame 0]"] by simp
  have frames: "\<forall>c\<in>set (got_chunks ?ticks). length c = 2 * CHUNK_SIZE"
    unfolding got by (simp add: frame_def)
  from handed_off_buffers_pass_the_filter [OF res mem] frames
  have "29 \<le> length ?buf" and "\<exists>smp. audio_np_of ?buf = Inr smp \<and>
      \<not> (of_nat (length smp) :: rat) < (1 / 2) * of_nat RATE"
    by blast+
  moreover from frames have "list_all (\<lambda>c. length c = 2 * CHUNK_SIZE) (got_chunks ?ticks)"
    by (simp only: list_all_iff)
  ultimately show ?thesis
    using mem by blast
qed

text \<open>
  C1, evaluated on 50 silent frames numbered 0 to 49 followed by one speech frame: the
  buffer created at the onset holds the silent frames 1 to 49 and then the speech frame
  twice, because the frame was pushed into the pre-buffer before the snapshot was taken
  and is appended once more after it. It is not the 50 silent frames followed by the
  speech frame once.
\<close>

theorem onset_buffer_repeats_trigger:
  "recording_buffer (fst (snd (run_loop typing_env init_state
      (map (\<lambda>n. silence (frame (of_nat n))) [0..<50] @ [speech (frame 255)])))) =
     map (\<lambda>n. frame (of_nat n)) [1..<50] @ [frame 255, frame 255] \<and>
   recording_buffer (fst (snd (run_loop typing_env init_state
      (map (\<lambda>n. silence (frame (of_nat n))) [0..<50] @ [speech (frame 255)])))) \<noteq>
     map (\<lambda>n. frame (of_nat n)) [0..<50] @ [frame 255]"
proof -
  let ?cs = "map (\<lambda>n. frame (of_nat n)) [0..<50]"
  let ?ticks = "map (\<lambda>n. silence (frame (of_nat n))) [0..<50] @ [speech (frame 255)]"
  let ?buf = "recording_buffer (fst (snd (run_loop typing_env init_state ?ticks)))"
  have ticks: "?ticks = map silence ?cs @ [speech (frame 255)]"
    by simp
  have "?buf = drop (Suc (length ?cs) - 50) (?cs @ [frame 255]) @ [frame 255]"
    unfolding ticks onset_buffer by simp
  also have "\<dots> = map (\<lambda>n. frame (of_nat n)) [1..<50] @ [frame 255, frame 255]"
    by (simp add: drop_map)
  finally have eq: "?buf = map (\<lambda>n. frame (of_nat n)) [1..<50] @ [frame 255, frame 255]" .
  have "hd (map (\<lambda>n. frame (of_nat n)) [1..<50] @ [frame 255, frame 255]) = frame 1"
    using hd_map_upt [of 1 50 "\<lambda>n. frame (of_nat n)" "[frame 255, frame 255]"] by simp
  moreover have "hd (map (\<lambda>n. frame (of_nat n)) [0..<50] @ [frame 255]) = frame 0"
    using hd_map_upt [of 0 50 "\<lambda>n. frame (of_nat n)" "[frame 255]"] by simp
  moreover have "frame 1 \<noteq> frame 0"
    by (simp add: frame_def CHUNK_SIZE_480)
  ultimately have "map (\<lambda>n. frame (of_nat n)) [1..<50] @ [frame 255, frame 255] \<noteq>
      map (\<lambda>n. frame (of_nat n)) [0..<50] @ [frame 255]"
    by metis
  with eq show ?thesis
    by simp
qed

text \<open>
  C2, evaluated on an utterance whose transcription raises: the exception leaves
  \<open>process_audio\<close> and the loop, nothing is printed about it, the state is left
  recording with the buffer uncleared, the ticks that follow are never processed, and
  \<open>run\<close> passes the exception on after its clean-up.
\<close>

theorem engine_exception_ends_the_loop:
  "\<exists>smp.
     run_loop failing_env init_state
       (speech (frame 1) # map silence (replicate 26 (frame 0)) @ [silence (frame 0)]) =
       (Some TranscribeError,
        init_state\<lparr>pre_buffer := foldl deque_append (pre_buffer init_state)
             (frame 1 # replicate 26 (frame 0) @ [frame 0]),
           recording_buffer := frame 1 # frame 1 # replicate 26 (frame 0) @ [frame 0],
           is_recording := True, silence_chunks := 27\<rparr>,
        [Print_recording, Print_processing,
         Call_process_audio (frame 1 # frame 1 # replicate 26 (frame 0) @ [frame 0]),
         Call_transcribe smp]) \<and>
     run_loop failing_env init_state
       ((speech (frame 1) # map silence (replicate 26 (frame 0)) @ [silence (frame 0)]) @
        [speech (frame 2), speech (frame 3)]) =
     run_loop failing_env init_state
       (speech (frame 1) # map silence (replicate 26 (frame 0)) @ [silence (frame 0)]) \<and>
     fst (run failing_env init_state
       (speech (frame 1) # map silence (replicate 26 (frame 0)) @ [silence (frame 0)])) =
     Some TranscribeError"
proof -
  let ?buf = "frame 1 # frame 1 # replicate 26 (frame 0) @ [frame (0 :: 8 word)]"
  let ?ticks = "speech (frame 1) # map silence (replicate 26 (frame 0)) @ [silence (frame 0)]"
  have "\<forall>c\<in>set ?buf. length c = 2 * CHUNK_SIZE"
    by (simp add: frame_def)
  from audio_np_of_uniform [OF this] obtain smp where
    smp: "audio_np_of ?buf = Inr smp" and n: "length smp = CHUNK_SIZE * length ?buf"
    by blast
  from n have long: "8000 \<le> length smp"
    by (simp add: CHUNK_SIZE_480)
  have "transcribe failing_env smp = Inl TranscribeError"
    by (simp add: failing_env_def)
  with smp long have pa: "process_audio failing_env ?buf = (Some TranscribeError, [Call_transcribe smp])"
    by (rule process_audio_engine_raises)
  have "length (replicate 26 (frame (0 :: 8 word))) = 26"
    by simp
  from first_utterance [OF this, of failing_env "frame 1" "frame 0"]
  have run: "run_loop failing_env init_state ?ticks =
       (Some TranscribeError,
        init_state\<lparr>pre_buffer := foldl deque_append (pre_buffer init_state)
             (frame 1 # replicate 26 (frame 0) @ [frame 0]),
           recording_buffer := ?buf,
           is_recording := True, silence_chunks := 27\<rparr>,
        [Print_recording, Print_processing, Call_process_audio ?buf, Call_transcribe smp])"
    unfolding pa by (simp del: run_loop.simps)
  have "run_loop failing_env init_state (?ticks @ [speech (frame 2), speech (frame 3)]) =
      run_loop failing_env init_state ?ticks"
    unfolding run_loop_append [of failing_env init_state ?ticks] run by simp
  moreover have "fst (run failing_env init_state ?ticks) = Some TranscribeError"
    unfolding run_def run by (simp add: cleanup_def)
  ultimately show ?thesis
    using run by blast
qed

text \<open>
  C5. The scenario: 100 frames classified as silence, 40 as speech, 30 as silence, each
  of \<open>CHUNK_SIZE\<close> samples, from the initial state. Through the first 100 ticks the
  loop is idle and silent; from tick 101, the first speech frame, to tick 166 it is
  recording and has only announced the recording; tick 167, the 27th trailing silent
  frame, hands over a buffer of 117 chunks, which assembles to 56160 samples, 3.51 s,
  fails the test of the discard branch, and is passed to the engine. The three ticks
  that remain add nothing.
\<close>

theorem scenario_100_40_30:
  assumes s1: "length s1 = 100" and sp: "length sp = 40" and s2: "length s2 = 30"
      and frames: "\<forall>c\<in>set (s1 @ sp @ s2). length c = 2 * CHUNK_SIZE"
  shows "let ticks = map silence s1 @ map speech sp @ map silence s2;
             buf = drop 51 s1 @ hd sp # sp @ take 27 s2
         in (\<forall>n\<le>100. \<not> is_recording (fst (snd (run_loop e init_state (take n ticks)))) \<and>
                      snd (snd (run_loop e init_state (take n ticks))) = []) \<and>
            (\<forall>n. 101 \<le> n \<and> n \<le> 166 \<longrightarrow>
               fst (run_loop e init_state (take n ticks)) = None \<and>
               is_recording (fst (snd (run_loop e init_state (take n ticks)))) \<and>
               snd (snd (run_loop e init_state (take n ticks))) = [Print_recording]) \<and>
            snd (snd (run_loop e init_state (take 167 ticks))) =
              Print_recording # Print_processing # Call_process_audio buf #
              snd (process_audio e buf) \<and>
            snd (snd (run_loop e init_state ticks)) =
              Print_recording # Print_processing # Call_process_audio buf #
              snd (process_audio e buf) \<and>
            length buf = 117 \<and>
            (\<exists>smp. audio_np_of buf = Inr smp \<and> length smp = 56160 \<and>
               (of_nat (length smp) :: rat) / of_nat RATE = 351 / 100 \<and>
               \<not> (of_nat (length smp) :: rat) < (1 / 2) * of_nat RATE \<and>
               hd (snd (process_audio e buf)) = Call_transcribe smp)"
proof -
  define ticks where "ticks = map silence s1 @ map speech sp @ map silence s2"
  define buf where "buf = drop 51 s1 @ hd sp # sp @ take 27 s2"
  obtain c sp' where sp_eq: "sp = c # sp'" and sp': "length sp' = 39"
    using sp by (cases sp) simp_all
  have start: "running init_state" "\<not> is_recording init_state"
    by (simp_all add: init_state_def)
  have idle: "\<not> is_recording (fst (snd (run_loop e init_state (take n ticks)))) \<and>
      snd (snd (run_loop e init_state (take n ticks))) = []" if "n \<le> 100" for n
  proof -
    have "take n ticks = map silence (take n s1)"
      using that s1 by (simp add: ticks_def take_map)
    with run_idle_silence [OF start, of e "take n s1"] start show ?thesis
      by simp
  qed
  have recording: "fst (run_loop e init_state (take n ticks)) = None \<and>
      is_recording (fst (snd (run_loop e init_state (take n ticks)))) \<and>
      snd (snd (run_loop e init_state (take n ticks))) = [Print_recording]"
    if "101 \<le> n \<and> n \<le> 166" for n
  proof -
    have "take n ticks = map silence s1 @ speech c # map speech (take (n - 101) sp') @
        map silence (take (n - 140) s2)"
      using that s1 sp' by (simp add: ticks_def sp_eq take_map take_Cons')
    moreover have "length (take (n - 140) s2) < 27"
      using that s2 by auto
    note run_utterance_open [OF start this, of e s1 c "take (n - 101) sp'"]
    ultimately show ?thesis
      by simp
  qed
  have t27: "take 27 s2 = take 26 s2 @ [s2 ! 26]"
    using s2 take_Suc_conv_app_nth [of 26 s2] by simp
  have m27: "map silence (take 27 s2) = map silence (take 26 s2) @ [silence (s2 ! 26)]"
    unfolding t27 by simp
  have l26: "length (take 26 s2) = 26"
    using s2 by simp
  have items: "items (foldl deque_append (pre_buffer init_state) (s1 @ [c])) = drop 51 s1 @ [c]"
    using items_after_silence [of s1 c] s1 by simp
  have buf_eq: "items (foldl deque_append (pre_buffer init_state) (s1 @ [c])) @
      c # sp' @ take 26 s2 @ [s2 ! 26] = buf"
    unfolding items buf_def sp_eq t27 by simp
  have cut: "take 167 ticks =
      map silence s1 @ speech c # map speech sp' @ map silence (take 26 s2) @
      [silence (s2 ! 26)] @ map silence []"
    using s1 sp' s2 by (simp add: ticks_def sp_eq take_map m27)
  have whole: "ticks =
      map silence s1 @ speech c # map speech sp' @ map silence (take 26 s2) @
      [silence (s2 ! 26)] @ map silence (drop 27 s2)"
  proof -
    have "map silence s2 = map silence (take 27 s2) @ map silence (drop 27 s2)"
      unfolding map_append [symmetric] by simp
    then have "map silence s2 =
        map silence (take 26 s2) @ [silence (s2 ! 26)] @ map silence (drop 27 s2)"
      unfolding m27 by simp
    then show ?thesis
      by (simp add: ticks_def sp_eq)
  qed
  have at167: "snd (snd (run_loop e init_state (take 167 ticks))) =
      Print_recording # Print_processing # Call_process_audio buf # snd (process_audio e buf)"
    unfolding cut utterance_then_silence [OF l26] buf_eq ..
  have at170: "snd (snd (run_loop e init_state ticks)) =
      Print_recording # Print_processing # Call_process_audio buf # snd (process_audio e buf)"
    unfolding whole utterance_then_silence [OF l26] buf_eq ..
  have len: "length buf = 117"
    using s1 sp s2 by (simp add: buf_def)
  have "\<forall>c\<in>set buf. length c = 2 * CHUNK_SIZE"
  proof
    fix x assume "x \<in> set buf"
    then have "x \<in> set (drop 51 s1) \<or> x = hd sp \<or> x \<in> set sp \<or> x \<in> set (take 27 s2)"
      by (auto simp: buf_def)
    then have "x \<in> set (s1 @ sp @ s2)"
      using in_set_dropD [of x 51 s1] in_set_takeD [of x 27 s2] sp_eq by auto
    with frames show "length x = 2 * CHUNK_SIZE"
      by blast
  qed
  from audio_np_of_uniform [OF this] obtain smp where
    smp: "audio_np_of buf = Inr smp" and n: "length smp = CHUNK_SIZE * length buf"
    by blast
  from n len have n56: "length smp = 56160"
    by (simp add: CHUNK_SIZE_480)
  then have dur: "(of_nat (length smp) :: rat) / of_nat RATE = 351 / 100"
    by (simp add: RATE_def)
  have pass: "\<not> (of_nat (length smp) :: rat) < (1 / 2) * of_nat RATE"
    by (simp add: n56 RATE_def)
  have "8000 \<le> length smp"
    by (simp add: n56)
  with smp have "hd (snd (process_audio e buf)) = Call_transcribe smp"
    by (rule hd_process_audio_long)
  with smp n56 dur pass have "\<exists>smp. audio_np_of buf = Inr smp \<and> length smp = 56160 \<and>
      (of_nat (length smp) :: rat) / of_nat RATE = 351 / 100 \<and>
      \<not> (of_nat (length smp) :: rat) < (1 / 2) * of_nat RATE \<and>
      hd (snd (process_audio e buf)) = Call_transcribe smp"
    by blast
  with idle recording at167 at170 len show ?thesis
    unfolding Let_def ticks_def [symmetric] buf_def [symmetric] by blast
qed

theorem scenario_100_40_30_witness:
  "let ticks = map silence (replicate 100 (frame 0)) @ map speech (replicate 40 (frame 1)) @
               map silence (replicate 30 (frame 0));
       buf = drop 51 (replicate 100 (frame 0)) @ hd (replicate 40 (frame 1)) #
             replicate 40 (frame 1) @ take 27 (replicate 30 (frame 0))
   in length (replicate 100 (frame 0)) = 100 \<and>
      length (replicate 40 (frame 1)) = 40 \<and>
      length (replicate 30 (frame 0)) = 30 \<and>
      list_all (\<lambda>c. length c = 2 * CHUNK_SIZE)
        (replicate 100 (frame 0) @ replicate 40 (frame 1) @ replicate 30 (frame 0)) \<and>
      \<not> is_recording (fst (snd (run_loop typing_env init_state (take 100 ticks)))) \<and>
      is_recording (fst (snd (run_loop typing_env init_state (take 101 ticks)))) \<and>
      snd (snd (run_loop typing_env init_state (take 166 ticks))) = [Print_recording] \<and>
      length buf = 117 \<and>
      (\<exists>smp. length smp = 56160 \<and>
         snd (snd (run_loop typing_env init_state (take 167 ticks))) =
           Print_recording # Print_processing # Call_process_audio buf #
           snd (process_audio typing_env buf) \<and>
         hd (snd (process_audio typing_env buf)) = Call_transcribe smp)"
proof -
  define ticks where "ticks = map silence (replicate 100 (frame 0)) @
      map speech (replicate 40 (frame 1)) @ map silence (replicate 30 (frame 0))"
  define buf where "buf = drop 51 (replicate 100 (frame 0)) @ hd (replicate 40 (frame 1)) #
      replicate 40 (frame 1) @ take 27 (replicate 30 (frame 0))"
  have h1: "length (replicate 100 (frame (0 :: 8 word))) = 100"
    and h2: "length (replicate 40 (frame (1 :: 8 word))) = 40"
    and h3: "length (replicate 30 (frame (0 :: 8 word))) = 30"
    by simp_all
  have h4: "\<forall>c\<in>set (replicate 100 (frame 0) @ replicate 40 (frame 1) @ replicate 30 (frame 0)).
      length c = 2 * CHUNK_SIZE"
    by (auto simp: frame_def)
  note main = scenario_100_40_30 [OF h1 h2 h3 h4, of typing_env,
      unfolded Let_def ticks_def [symmetric] buf_def [symmetric]]
  from main have a: "\<not> is_recording (fst (snd (run_loop typing_env init_state (take 100 ticks))))"
    by simp
  from main have b: "is_recording (fst (snd (run_loop typing_env init_state (take 101 ticks))))"
    by simp
  from main have c: "snd (snd (run_loop typing_env init_state (take 166 ticks))) = [Print_recording]"
    by simp
  from main have d: "length buf = 117"
    by blast
  from main have e: "\<exists>smp. length smp = 56160 \<and>
         snd (snd (run_loop typing_env init_state (take 167 ticks))) =
           Print_recording # Print_processing # Call_process_audio buf #
           snd (process_audio typing_env buf) \<and>
         hd (snd (process_audio typing_env buf)) = Call_transcribe smp"
    by blast
  from h4 have h4': "list_all (\<lambda>c. length c = 2 * CHUNK_SIZE)
      (replicate 100 (frame 0) @ replicate 40 (frame 1) @ replicate 30 (frame 0))"
    by (simp only: list_all_iff)
  from h1 h2 h3 h4' a b c d e show ?thesis
    unfolding Let_def ticks_def [symmetric] buf_def [symmetric] by blast
qed

end
